theory Spec2Isabelle
  imports
    Main
    "HOL-Library.Char_ord"
    "HOL-Library.List_Lexorder"
    "HOL-Library.Monad_Syntax"
    "HOL-Library.Multiset"
begin

section \<open>The SARIF handler of govulncheck (internal/sarif/handler.go)\<close>

text \<open>
  Go strings are byte sequences compared bytewise, lexicographically: \<^typ>\<open>string\<close> with
  the order of the library theories Char_ord and List_Lexorder.
  A runtime panic of the Go code (an index out of range, a nil dereference) is the value
  \<open>None\<close> of the model; pointers to findings, frames and entries are modelled by the
  values they point to.
\<close>

subsection \<open>Input data: govulncheck.Frame, govulncheck.Finding, osv.Entry, govulncheck.Config\<close>

record position =
  Filename :: string
  Offset :: int
  Line :: int
  Column :: int

record frame =
  Module :: string
  Version :: string
  Package :: string
  Function :: string
  Receiver :: string
  Position :: "position option"

record finding =
  F_OSV :: string
  FixedVersion :: string
  Trace :: "frame list"

record entry =
  ID :: string
  Summary :: string
  Details :: string
  Aliases :: "string list"

record config =
  ScannerName :: string
  ScannerVersion :: string
  ScanLevel :: string

text \<open>
  Modelled from the spec: the method \<open>WantSymbols\<close> of govulncheck.ScanLevel is declared
  outside the files at hand. The scan depth is one of module, package and symbol, and
  \<open>WantSymbols\<close> holds when symbol-level results were requested.
\<close>

definition WantSymbols :: "string \<Rightarrow> bool" where
  "WantSymbols l = (l = ''symbol'')"

text \<open>
  Modelled from the spec: the method \<open>WantPackages\<close> of govulncheck.ScanLevel is declared
  outside the files at hand. A symbol-level scan also asks for packages: the module-tier
  qualifier of the message reads "call" for a symbol-level scan and "import" for a
  package-level one, both under \<open>WantPackages\<close>, and the suggestion to run the
  call-level analysis is left to the module-level scan.
\<close>

definition WantPackages :: "string \<Rightarrow> bool" where
  "WantPackages l = (l = ''package'' \<or> l = ''symbol'')"

subsection \<open>The handler and its submissions\<close>

record 'w handler =
  w :: 'w
  cfg :: "config option"
  osvs :: "string \<rightharpoonup> entry"
  findings :: "string \<rightharpoonup> finding list"

definition NewHandler :: "'w \<Rightarrow> 'w handler" where
  "NewHandler wr = \<lparr>w = wr, cfg = None, osvs = Map.empty, findings = Map.empty\<rparr>"

definition Config :: "config \<Rightarrow> 'w handler \<Rightarrow> 'w handler" where
  "Config c h = h\<lparr>cfg := Some c\<rparr>"

definition OSV :: "entry \<Rightarrow> 'w handler \<Rightarrow> 'w handler" where
  "OSV e h = h\<lparr>osvs := (osvs h)(ID e \<mapsto> e)\<rparr>"

text \<open>
  \<open>moreSpecific f1 f2\<close> is \<open>-1\<close> when \<open>f1\<close> is ranked more specific than \<open>f2\<close>, \<open>0\<close> when
  they are ranked equal and \<open>1\<close> when \<open>f1\<close> is ranked less specific. Reading \<open>Trace[0]\<close> of
  an empty trace panics.
\<close>

definition moreSpecific :: "finding \<Rightarrow> finding \<Rightarrow> int option" where
  "moreSpecific f1 f2 =
    (if length (Trace f1) > 1 \<and> length (Trace f2) > 1 then Some 0
     else if length (Trace f1) > 1 then Some (- 1)
     else if length (Trace f2) > 1 then Some 1
     else (case Trace f1 of
         [] \<Rightarrow> None
       | fr1 # _ \<Rightarrow>
          (case Trace f2 of
             [] \<Rightarrow> None
           | fr2 # _ \<Rightarrow>
              if Function fr1 \<noteq> [] \<and> Function fr2 = [] then Some (- 1)
              else if Function fr1 = [] \<and> Function fr2 \<noteq> [] then Some 1
              else if Package fr1 \<noteq> [] \<and> Package fr2 = [] then Some (- 1)
              else if Package fr1 = [] \<and> Package fr2 \<noteq> [] then Some (- 1)
              else Some 0)))"

text \<open>A lookup in a Go map of slices gives the nil slice for a missing key.\<close>

definition group_of :: "'w handler \<Rightarrow> string \<Rightarrow> finding list" where
  "group_of h k = (case findings h k of None \<Rightarrow> [] | Some fs \<Rightarrow> fs)"

definition Finding :: "finding \<Rightarrow> 'w handler \<Rightarrow> 'w handler option" where
  "Finding f h =
    (let fs = group_of h (F_OSV f) in
     if length fs = 0 then Some (h\<lparr>findings := (findings h)(F_OSV f \<mapsto> [f])\<rparr>)
     else do {
       ms \<leftarrow> moreSpecific f (hd fs);
       let fs' = (if ms = - 1 then [f] else if ms = 0 then fs @ [f] else fs);
       Some (h\<lparr>findings := (findings h)(F_OSV f \<mapsto> fs')\<rparr>)
     })"

subsection \<open>The SARIF document (the fields that the handler fills)\<close>

record Description =
  Text :: string

record RuleTags =
  Tags :: "string list"

record Rule =
  Rule_ID :: string
  ShortDescription :: Description
  FullDescription :: Description
  HelpURI :: string
  Help :: Description
  Rule_Properties :: RuleTags

record SarifFrame =
  Frame_Module :: string

record Stack =
  Frames :: "SarifFrame list"
  Stack_Message :: Description

record Result =
  RuleID :: string
  Level :: string
  Result_Message :: Description
  Stacks :: "Stack list"

record Driver =
  Name :: string
  Driver_Version :: string
  InformationURI :: string
  Driver_Properties :: config
  Rules :: "Rule list"

record Tool =
  Tool_Driver :: Driver

record Run =
  Run_Tool :: Tool
  Results :: "Result list"

record Log =
  Log_Version :: string
  Schema :: string
  Runs :: "Run list"

subsection \<open>Helpers of the message\<close>

text \<open>
  Modelled from the spec: \<open>choose\<close> (here \<open>choose_str\<close>) is a helper of the package
  declared outside the files at hand. The spec appends "s" to the noun iff the count is
  not 1, which fixes \<open>choose s1 s2 cond\<close> as \<open>s1\<close> when \<open>cond\<close> holds and \<open>s2\<close>
  otherwise.
\<close>

definition choose_str :: "string \<Rightarrow> string \<Rightarrow> bool \<Rightarrow> string" where
  "choose_str s1 s2 cond = (if cond then s1 else s2)"

text \<open>
  Modelled from the spec: \<open>list\<close> (here \<open>list_elems\<close>) is a helper of the package
  declared outside the files at hand. The spec renders the sorted units "as a comma-joined
  list" (scenario B: \<open>(a, b)\<close>).
\<close>

fun list_elems :: "string list \<Rightarrow> string" where
  "list_elems [] = []"
| "list_elems [e] = e"
| "list_elems (e # es) = e @ '', '' @ list_elems es"

text \<open>The verb \<open>%d\<close> of fmt.Sprintf on a length: the decimal digits.\<close>

fun decimal :: "nat \<Rightarrow> string" where
  "decimal n =
    (if n < 10 then [''0123456789'' ! n]
     else decimal (n div 10) @ [''0123456789'' ! (n mod 10)])"

declare decimal.simps [simp del]

text \<open>\<open>f.Trace[0]\<close>, which panics on an empty trace.\<close>

definition sink :: "finding \<Rightarrow> frame option" where
  "sink f = (case Trace f of [] \<Rightarrow> None | fr # _ \<Rightarrow> Some fr)"

text \<open>\<open>findings[0]\<close>, which panics on an empty slice.\<close>

definition first :: "'a list \<Rightarrow> 'a option" where
  "first xs = (case xs of [] \<Rightarrow> None | x # _ \<Rightarrow> Some x)"

text \<open>
  The loops \<open>for _, f := range findings { uniqueElems[f.Trace[0].X] = true }\<close>: the sink
  frames of all findings, or a panic at the first empty trace.
\<close>

fun sinks :: "finding list \<Rightarrow> frame list option" where
  "sinks [] = Some []"
| "sinks (f # fs) = do { fr \<leftarrow> sink f; frs \<leftarrow> sinks fs; Some (fr # frs) }"

definition runCallAnalysis :: string where
  "runCallAnalysis =
    ''Run the call-level analysis to understand whether your code actually calls the vulnerabilities.''"

text \<open>
  The qualifier of the package branch is written in the source with the typographic
  apostrophe U+2019, the bytes E2 80 99 of its UTF-8 encoding.
\<close>

definition pkg_no_call :: string where
  "pkg_no_call =
    '', but doesn'' @ [CHR 0xE2, CHR 0x80, CHR 0x99] @
    ''t appear to call any of the vulnerable symbols.''"

definition apostrophe :: string where
  "apostrophe = [CHR 0x27]"

text \<open>
  The keys of the map \<open>uniqueElems\<close> are visited in an unspecified order and then sorted
  by sort.Strings: the sorted list of the distinct elements, whatever the order of the visit
  (lemma \<open>sort_visit_unique\<close> below).
\<close>

definition resultMessage :: "finding list \<Rightarrow> config option \<Rightarrow> string option" where
  "resultMessage fs c = do {
     f0 \<leftarrow> first fs;
     frame \<leftarrow> sink f0;
     frs \<leftarrow> sinks fs;
     let uniqueElems = (if Function frame = [] \<and> Package frame = []
                        then map Module frs else map Package frs);
     let elems = sort (remdups uniqueElems);
     let l = length elems;
     let elemList = list_elems elems;
     (if Function frame \<noteq> [] then
        Some (''Your code '' @ (''calls vulnerable functions in '' @ decimal l @ '' package'' @
              choose_str [] ''s'' (l = 1) @ '' ('' @ elemList @ '').'') @ [])
      else if Package frame \<noteq> [] then do {
        cf \<leftarrow> c;
        Some (''Your code '' @ (''imports '' @ decimal l @ '' vulnerable package'' @
              choose_str [] ''s'' (l = 1) @ '' ('' @ elemList @ '')'') @
              choose_str pkg_no_call (''. '' @ runCallAnalysis) (WantSymbols (ScanLevel cf)))
      }
      else do {
        cf \<leftarrow> c;
        let informational = '', but doesn'' @ apostrophe @ ''t appear to '' @
              choose_str ''call'' ''import'' (WantSymbols (ScanLevel cf)) @
              '' any of the vulnerable symbols.'';
        Some (''Your code '' @ (''depends on '' @ decimal l @ '' vulnerable module'' @
              choose_str [] ''s'' (l = 1) @ '' ('' @ elemList @ '')'') @
              choose_str informational (''. '' @ runCallAnalysis) (WantPackages (ScanLevel cf)))
      })
   }"

subsection \<open>Levels\<close>

definition errorLevel :: string where "errorLevel = ''error''"
definition warningLevel :: string where "warningLevel = ''warning''"
definition informationalLevel :: string where "informationalLevel = ''note''"

definition level :: "finding \<Rightarrow> config option \<Rightarrow> string option" where
  "level f c = do {
     fr \<leftarrow> sink f;
     cf \<leftarrow> c;
     (if WantSymbols (ScanLevel cf) then
        (if Function fr \<noteq> [] then Some errorLevel
         else if Package fr \<noteq> [] then Some warningLevel
         else Some informationalLevel)
      else if WantPackages (ScanLevel cf) then
        (if Package fr \<noteq> [] then Some errorLevel else Some warningLevel)
      else Some errorLevel)
   }"

subsection \<open>Stacks\<close>

definition stack :: "finding \<Rightarrow> Stack option" where
  "stack f = do {
     let trace = Trace f;
     let frames = map (\<lambda>fr. \<lparr>Frame_Module = Module fr\<rparr>) (rev trace);
     vuln \<leftarrow> sink f;
     let vulnSym = Function vuln;
     let vulnSym = (if Receiver vuln \<noteq> [] then Receiver vuln @ ''.'' @ vulnSym else vulnSym);
     let vulnSym = Package vuln @ ''.'' @ vulnSym;
     Some \<lparr>Frames = frames,
           Stack_Message = \<lparr>Text = ''A call stack for vulnerable function '' @ vulnSym\<rparr>\<rparr>
   }"

text \<open>The loop of \<open>stacks\<close>, which stops at the first panic.\<close>

fun stack_each :: "finding list \<Rightarrow> Stack list option" where
  "stack_each [] = Some []"
| "stack_each (f # fs) = do { s \<leftarrow> stack f; ss \<leftarrow> stack_each fs; Some (s # ss) }"

text \<open>sort.SliceStable is a stable sort: \<^const>\<open>sort_key\<close> keeps equal keys in their order.\<close>

definition stacks :: "finding list \<Rightarrow> Stack list option" where
  "stacks fs = do {
     f0 \<leftarrow> first fs;
     fr \<leftarrow> sink f0;
     (if Function fr = [] then Some []
      else do {
        ss \<leftarrow> stack_each fs;
        Some (sort_key (\<lambda>s. Text (Stack_Message s)) ss)
      })
   }"

subsection \<open>Rules, results and the document\<close>

text \<open>
  A \<open>range\<close> over a Go map visits every key once, in an order that the language leaves
  unspecified: \<open>rules\<close> and \<open>results\<close> take the order \<open>ks\<close> of the visit, which
  \<open>visit m ks\<close> constrains.
\<close>

definition visit :: "('k \<rightharpoonup> 'v) \<Rightarrow> 'k list \<Rightarrow> bool" where
  "visit m ks = (distinct ks \<and> set ks = dom m)"

definition rule_of :: "entry \<Rightarrow> Rule" where
  "rule_of osv =
    (let s = Summary osv;
         s = (if s = [] then Details osv else s)
     in \<lparr>Rule_ID = ID osv,
         ShortDescription = \<lparr>Text = ''['' @ ID osv @ ''] '' @ s\<rparr>,
         FullDescription = \<lparr>Text = s\<rparr>,
         HelpURI = ''https://pkg.go.dev/vuln/'' @ ID osv,
         Help = \<lparr>Text = Details osv\<rparr>,
         Rule_Properties = \<lparr>Tags = Aliases osv\<rparr>\<rparr>)"

fun rules_each :: "'w handler \<Rightarrow> string list \<Rightarrow> Rule list option" where
  "rules_each h [] = Some []"
| "rules_each h (k # ks) = do { osv \<leftarrow> osvs h k; rs \<leftarrow> rules_each h ks; Some (rule_of osv # rs) }"

definition rules :: "string list \<Rightarrow> 'w handler \<Rightarrow> Rule list option" where
  "rules ks h = do { rs \<leftarrow> rules_each h ks; Some (sort_key Rule_ID rs) }"

definition result_of :: "finding list \<Rightarrow> config option \<Rightarrow> Result option" where
  "result_of fs c = do {
     f0 \<leftarrow> first fs;
     lv \<leftarrow> level f0 c;
     msg \<leftarrow> resultMessage fs c;
     ss \<leftarrow> stacks fs;
     Some \<lparr>RuleID = F_OSV f0, Level = lv, Result_Message = \<lparr>Text = msg\<rparr>, Stacks = ss\<rparr>
   }"

fun results_each :: "'w handler \<Rightarrow> string list \<Rightarrow> Result list option" where
  "results_each h [] = Some []"
| "results_each h (k # ks) =
     do { r \<leftarrow> result_of (group_of h k) (cfg h); rs \<leftarrow> results_each h ks; Some (r # rs) }"

definition results :: "string list \<Rightarrow> 'w handler \<Rightarrow> Result list option" where
  "results ks h = do { rs \<leftarrow> results_each h ks; Some (sort_key RuleID rs) }"

definition toSarif :: "string list \<Rightarrow> string list \<Rightarrow> 'w handler \<Rightarrow> Log option" where
  "toSarif ks1 ks2 h = do {
     c \<leftarrow> cfg h;
     rls \<leftarrow> rules ks1 h;
     res \<leftarrow> results ks2 h;
     let r = \<lparr>Run_Tool = \<lparr>Tool_Driver =
                 \<lparr>Name = ScannerName c,
                  Driver_Version = ScannerVersion c,
                  InformationURI = ''https://pkg.go.dev/golang.org/x/vuln/cmd/govulncheck'',
                  Driver_Properties = c,
                  Rules = rls\<rparr>\<rparr>,
              Results = res\<rparr>;
     Some \<lparr>Log_Version = ''2.1.0'',
           Schema = ''https://json.schemastore.org/sarif-2.1.0.json'',
           Runs = [r]\<rparr>
   }"

text \<open>
  The encoder json.MarshalIndent and the method \<open>Write\<close> of the io.Writer are parameters:
  \<open>marshal\<close> gives an error or the bytes, \<open>write\<close> gives the writer after the call, the
  number of bytes written and an error or nil (\<open>None\<close>). \<open>Flush\<close> gives the error that
  the Go method returns (\<open>None\<close> is nil) and the handler after the call.
\<close>

definition Flush ::
  "(Log \<Rightarrow> 'e + string) \<Rightarrow> ('w \<Rightarrow> string \<Rightarrow> 'w \<times> nat \<times> 'e option) \<Rightarrow>
   string list \<Rightarrow> string list \<Rightarrow> 'w handler \<Rightarrow> ('e option \<times> 'w handler) option" where
  "Flush marshal write ks1 ks2 h = do {
     sLog \<leftarrow> toSarif ks1 ks2 h;
     (case marshal sLog of
        Inl err \<Rightarrow> Some (Some err, h)
      | Inr s \<Rightarrow> Some (None, h\<lparr>w := fst (write (w h) s)\<rparr>))
   }"

section \<open>The notions of the specification\<close>

subsection \<open>Precision tiers, scan depths and severities\<close>

text \<open>
  The precision tier of a frame, in the words of the specification: module-only, below
  package-populated, below function-populated.
\<close>

datatype tier = ModuleTier | PackageTier | FunctionTier

fun tier_rank :: "tier \<Rightarrow> nat" where
  "tier_rank ModuleTier = 0"
| "tier_rank PackageTier = 1"
| "tier_rank FunctionTier = 2"

definition frame_tier :: "frame \<Rightarrow> tier" where
  "frame_tier fr =
    (if Function fr \<noteq> [] then FunctionTier
     else if Package fr \<noteq> [] then PackageTier
     else ModuleTier)"

definition sink_tier :: "finding \<Rightarrow> tier option" where
  "sink_tier f = map_option frame_tier (sink f)"






subsection \<open>The sentence of the MessageComposer\<close>

text \<open>
  The identifying unit of a finding under the tier of its group, the plural of the noun and
  the verb clause, in the words of the specification.
\<close>

definition unit_of :: "tier \<Rightarrow> frame \<Rightarrow> string" where
  "unit_of t fr = (case t of ModuleTier \<Rightarrow> Module fr | _ \<Rightarrow> Package fr)"

definition plural_s :: "nat \<Rightarrow> string" where
  "plural_s n = (if n = 1 then [] else ''s'')"

fun clause :: "tier \<Rightarrow> nat \<Rightarrow> string \<Rightarrow> string" where
  "clause FunctionTier n l =
     ''calls vulnerable functions in '' @ decimal n @ '' package'' @ plural_s n @
     '' ('' @ l @ '').''"
| "clause PackageTier n l =
     ''imports '' @ decimal n @ '' vulnerable package'' @ plural_s n @ '' ('' @ l @ '')''"
| "clause ModuleTier n l =
     ''depends on '' @ decimal n @ '' vulnerable module'' @ plural_s n @ '' ('' @ l @ '')''"

text \<open>The set of the units of a group, under the tier of the sink frame of its head.\<close>

definition units :: "finding list \<Rightarrow> string set" where
  "units fs = (\<lambda>f. unit_of (frame_tier (hd (Trace (hd fs)))) (hd (Trace f))) ` set fs"

subsection \<open>Sequences of findings and invariant I1\<close>

text \<open>A sequence of calls of \<open>Finding\<close>, which stops at the first panic.\<close>

fun submit_all :: "finding list \<Rightarrow> 'w handler \<Rightarrow> 'w handler option" where
  "submit_all [] h = Some h"
| "submit_all (f # fs) h = do { h' \<leftarrow> Finding f h; submit_all fs h' }"

text \<open>Invariant I1 on one group: all members have the same sink-frame tier.\<close>

definition homogeneous :: "finding list \<Rightarrow> bool" where
  "homogeneous fs = (\<forall>f\<in>set fs. \<forall>g\<in>set fs. sink_tier f = sink_tier g)"

text \<open>
  A finding that the resolver ranks by its sink frame: the trace is not empty, and a trace
  of more than one frame (which the resolver takes for a call stack without looking at
  it) has a function name in its sink frame.
\<close>

definition call_stack_ok :: "finding \<Rightarrow> bool" where
  "call_stack_ok f =
    (case Trace f of [] \<Rightarrow> False | [fr] \<Rightarrow> True | fr # fr' # tr \<Rightarrow> Function fr \<noteq> [])"

text \<open>
  The invariant of the handler behind I1: every member of a group is ranked by its sink
  frame and has the tier of the head of the group.
\<close>

definition inv_h :: "'w handler \<Rightarrow> bool" where
  "inv_h h = (\<forall>k. \<forall>f\<in>set (group_of h k). call_stack_ok f \<and> sink_tier f = sink_tier (hd (group_of h k)))"

subsection \<open>Runs of submissions and their output\<close>

text \<open>
  A submission to the handler: a vulnerability definition (the method \<open>OSV\<close>) or a
  finding (the method \<open>Finding\<close>). A run is a sequence of submissions, which stops at
  the first panic.
\<close>

datatype submission = SubmitOSV entry | SubmitFinding finding

fun submit :: "submission \<Rightarrow> 'w handler \<Rightarrow> 'w handler option" where
  "submit (SubmitOSV e) h = Some (OSV e h)"
| "submit (SubmitFinding f) h = Finding f h"

fun run :: "submission list \<Rightarrow> 'w handler \<Rightarrow> 'w handler option" where
  "run [] h = Some h"
| "run (x # xs) h = do { h' \<leftarrow> submit x h; run xs h' }"

text \<open>The findings and the definitions of a run, in the order of their submission.\<close>

fun reported :: "submission list \<Rightarrow> finding list" where
  "reported [] = []"
| "reported (SubmitFinding f # xs) = f # reported xs"
| "reported (SubmitOSV e # xs) = reported xs"

fun defined :: "submission list \<Rightarrow> entry list" where
  "defined [] = []"
| "defined (SubmitOSV e # xs) = e # defined xs"
| "defined (SubmitFinding f # xs) = defined xs"

text \<open>
  The levels that \<open>moreSpecific\<close> tells apart: a trace of more than one frame (3), a
  single frame with a function name (2), with a package only (1), with neither (0).
\<close>

definition code_rank :: "finding \<Rightarrow> nat" where
  "code_rank f =
    (if length (Trace f) > 1 then 3
     else if Function (hd (Trace f)) \<noteq> [] then 2
     else if Package (hd (Trace f)) \<noteq> [] then 1
     else 0)"

text \<open>
  A finding as the producers of the analysis build it: the trace is not empty, a sink
  frame with a function name has a package, and a sink frame without a function name is
  the only frame of its trace.
\<close>

definition well_formed :: "finding \<Rightarrow> bool" where
  "well_formed f =
    (case Trace f of
       [] \<Rightarrow> False
     | fr # tr \<Rightarrow>
         (if Function fr = [] then tr = [] else Package fr \<noteq> []))"

text \<open>The findings of the highest level in a list, in their order.\<close>

fun max_rank :: "finding list \<Rightarrow> nat" where
  "max_rank [] = 0"
| "max_rank (f # fs) = max (code_rank f) (max_rank fs)"

definition top_level :: "finding list \<Rightarrow> finding list" where
  "top_level fs = filter (\<lambda>f. code_rank f = max_rank fs) fs"

text \<open>
  A vulnerability with both a module-level and a package-level finding (the pair on which
  the fourth comparison of \<open>moreSpecific\<close> answers \<open>-1\<close> in both argument orders) also
  has a call-level finding.
\<close>

definition mix_covered :: "finding list \<Rightarrow> bool" where
  "mix_covered fs =
    (\<forall>f\<in>set fs. \<forall>g\<in>set fs.
       F_OSV f = F_OSV g \<and> code_rank f = 0 \<and> code_rank g = 1 \<longrightarrow>
       (\<exists>c\<in>set fs. F_OSV c = F_OSV f \<and> 2 \<le> code_rank c))"

text \<open>
  The group after \<open>Finding f\<close>, in terms of the levels, for findings that
  \<open>moreSpecific\<close> ranks without a panic.
\<close>

fun merge :: "finding \<Rightarrow> finding list \<Rightarrow> finding list" where
  "merge f [] = [f]"
| "merge f (g # gs) =
    (if code_rank g < code_rank f \<or> (code_rank f = 0 \<and> code_rank g = 1) then [f]
     else if code_rank f = code_rank g then (g # gs) @ [f]
     else g # gs)"

text \<open>
  The findings of a vulnerability for which the group does not depend on the order: a
  call-level finding is among them, or no module-level finding meets a package-level one.
  A group \<open>gs\<close> tracks the findings \<open>fs\<close> submitted so far when it holds some of them
  and, where the order cannot matter, exactly those of the highest level.
\<close>

definition settled :: "finding list \<Rightarrow> bool" where
  "settled fs =
    (2 \<le> max_rank fs \<or> (\<forall>f\<in>set fs. \<forall>g\<in>set fs. \<not> (code_rank f = 0 \<and> code_rank g = 1)))"

definition tracks :: "finding list \<Rightarrow> finding list \<Rightarrow> bool" where
  "tracks fs gs =
    (if fs = [] then gs = []
     else gs \<noteq> [] \<and> set gs \<subseteq> set fs \<and> (settled fs \<longrightarrow> gs = top_level fs))"

text \<open>The findings for a vulnerability, and the definitions with an identifier.\<close>

definition keyed :: "string \<Rightarrow> finding list \<Rightarrow> finding list" where
  "keyed k fs = filter (\<lambda>f. F_OSV f = k) fs"

definition defs_for :: "string \<Rightarrow> entry list \<Rightarrow> entry list" where
  "defs_for k es = filter (\<lambda>e. ID e = k) es"

text \<open>
  The key of the stable sort of \<open>stacks\<close>, and the condition that call-level findings of
  one vulnerability with the same key have the same stack (so that the order of equal
  keys, which the stable sort keeps, cannot be seen).
\<close>

definition stack_label :: "finding \<Rightarrow> string option" where
  "stack_label f = map_option (\<lambda>s. Text (Stack_Message s)) (stack f)"

definition stack_ties_agree :: "finding list \<Rightarrow> bool" where
  "stack_ties_agree fs =
    (\<forall>f\<in>set fs. \<forall>g\<in>set fs.
       F_OSV f = F_OSV g \<and> 2 \<le> code_rank f \<and> 2 \<le> code_rank g \<and>
       stack_label f = stack_label g \<longrightarrow> stack f = stack g)"

text \<open>Definitions with the same identifier are the same definition.\<close>

definition consistent_definitions :: "entry list \<Rightarrow> bool" where
  "consistent_definitions es = (\<forall>e\<in>set es. \<forall>e'\<in>set es. ID e = ID e' \<longrightarrow> e = e')"

text \<open>
  What the caller of \<open>Flush\<close> observes: the error returned and the writer after the call.
\<close>

definition observed ::
  "(Log \<Rightarrow> 'e + string) \<Rightarrow> ('w \<Rightarrow> string \<Rightarrow> 'w \<times> nat \<times> 'e option) \<Rightarrow>
   string list \<Rightarrow> string list \<Rightarrow> 'w handler \<Rightarrow> ('e option \<times> 'w) option" where
  "observed marshal write ks1 ks2 h =
    map_option (\<lambda>(err, h'). (err, w h')) (Flush marshal write ks1 ks2 h)"

subsection \<open>Example inputs\<close>

definition ex_frame :: "string \<Rightarrow> string \<Rightarrow> string \<Rightarrow> frame" where
  "ex_frame m p f =
    \<lparr>Module = m, Version = [], Package = p, Function = f, Receiver = [], Position = None\<rparr>"

definition ex_finding :: "string \<Rightarrow> frame list \<Rightarrow> finding" where
  "ex_finding v tr = \<lparr>F_OSV = v, FixedVersion = [], Trace = tr\<rparr>"

text \<open>Scenario A: a module-level and a package-level finding for the vulnerability V1.\<close>

definition module_finding :: finding where
  "module_finding = ex_finding ''V1'' [ex_frame ''example.com/m'' [] []]"

definition package_finding :: finding where
  "package_finding = ex_finding ''V1'' [ex_frame ''example.com/m'' ''example.com/m/p'' []]"

text \<open>Two call-level findings with a trace of two frames, for the vulnerability V1.\<close>

definition call_finding :: finding where
  "call_finding =
    ex_finding ''V1'' [ex_frame ''example.com/m'' ''example.com/m/p'' ''F'',
                       ex_frame ''example.com/app'' ''example.com/app'' ''main'']"

definition call_finding2 :: finding where
  "call_finding2 =
    ex_finding ''V1'' [ex_frame ''example.com/m'' ''example.com/m/q'' ''G'',
                       ex_frame ''example.com/app'' ''example.com/app'' ''main'']"

text \<open>Scenario B: two function-level findings in the packages a and b, for V2.\<close>

definition finding_a :: finding where
  "finding_a = ex_finding ''V2'' [ex_frame ''example.com/m'' ''a'' ''F'']"

definition finding_b :: finding where
  "finding_b = ex_finding ''V2'' [ex_frame ''example.com/m'' ''b'' ''G'']"

text \<open>A configuration that asks for a symbol-level scan, and a definition of V1.\<close>

definition symbol_config :: config where
  "symbol_config =
    \<lparr>ScannerName = ''govulncheck'', ScannerVersion = ''v1.0.0'', ScanLevel = ''symbol''\<rparr>"

definition entry_V1 :: entry where
  "entry_V1 = \<lparr>ID = ''V1'', Summary = ''first summary'', Details = ''details'', Aliases = []\<rparr>"

text \<open>
  An encoder that succeeds, a writer that appends to the bytes written so far, and a
  writer that writes nothing and reports an error.
\<close>

definition fixed_marshal :: "Log \<Rightarrow> string + string" where
  "fixed_marshal l = Inr ''{}''"

definition appending_write :: "string \<Rightarrow> string \<Rightarrow> string \<times> nat \<times> string option" where
  "appending_write wr s = (wr @ s, length s, None)"

definition failing_write :: "string \<Rightarrow> string \<Rightarrow> string \<times> nat \<times> string option" where
  "failing_write wr s = (wr, 0, Some ''write failed'')"

definition defined_handler :: "string handler" where
  "defined_handler = Config symbol_config (OSV entry_V1 (NewHandler []))"

text \<open>
  A finding for V1 with a trace of two frames whose sink frame has a package and no
  function name, and a call-level finding for V1 with a single frame.
\<close>

definition coarse_stack_finding :: finding where
  "coarse_stack_finding =
    ex_finding ''V1'' [ex_frame ''example.com/m'' ''example.com/m/p'' [],
                       ex_frame ''example.com/app'' ''example.com/app'' ''main'']"

definition single_call_finding :: finding where
  "single_call_finding =
    ex_finding ''V1'' [ex_frame ''example.com/m'' ''example.com/m/p'' ''F'']"

text \<open>Handlers that hold one group for V1.\<close>

definition coarse_handler :: "string handler" where
  "coarse_handler =
    \<lparr>w = [], cfg = None, osvs = Map.empty, findings = [''V1'' \<mapsto> [coarse_stack_finding]]\<rparr>"

definition module_handler :: "string handler" where
  "module_handler =
    \<lparr>w = [], cfg = None, osvs = Map.empty, findings = [''V1'' \<mapsto> [module_finding]]\<rparr>"

definition call_handler :: "string handler" where
  "call_handler =
    \<lparr>w = [], cfg = None, osvs = Map.empty, findings = [''V1'' \<mapsto> [single_call_finding]]\<rparr>"

text \<open>A second definition of V1, with another summary.\<close>

definition entry_V1_second :: entry where
  "entry_V1_second =
    \<lparr>ID = ''V1'', Summary = ''second summary'', Details = ''details'', Aliases = []\<rparr>"

text \<open>
  An encoder that writes the short descriptions of the rules of a document (a part of what
  the JSON encoding writes).
\<close>

definition descriptions_marshal :: "Log \<Rightarrow> string + string" where
  "descriptions_marshal l =
    Inr (concat (map (\<lambda>r. Text (ShortDescription r))
          (concat (map (\<lambda>r. Rules (Tool_Driver (Run_Tool r))) (Runs l)))))"

text \<open>A new handler after \<open>Config\<close>.\<close>

definition configured :: "string handler" where
  "configured = Config symbol_config (NewHandler [])"

text \<open>Two runs of the same submissions that define V1 twice, in two orders.\<close>

definition redefined_first :: "submission list" where
  "redefined_first =
    [SubmitOSV entry_V1, SubmitOSV entry_V1_second, SubmitFinding module_finding]"

definition redefined_second :: "submission list" where
  "redefined_second =
    [SubmitOSV entry_V1_second, SubmitOSV entry_V1, SubmitFinding module_finding]"

text \<open>
  Two runs of the same submissions, in two orders: a definition of V1 and a module-level,
  a package-level and two call-level findings for it.
\<close>

definition covered_first :: "submission list" where
  "covered_first =
    [SubmitOSV entry_V1, SubmitFinding package_finding, SubmitFinding module_finding,
     SubmitFinding call_finding, SubmitFinding call_finding2]"

definition covered_second :: "submission list" where
  "covered_second =
    [SubmitFinding call_finding2, SubmitFinding module_finding, SubmitOSV entry_V1,
     SubmitFinding package_finding, SubmitFinding call_finding]"

text \<open>
  A call-level finding with the sink frame of \<open>call_finding\<close> and another caller.
\<close>

definition call_finding_other :: finding where
  "call_finding_other =
    ex_finding ''V1'' [ex_frame ''example.com/m'' ''example.com/m/p'' ''F'',
                       ex_frame ''example.com/other'' ''example.com/other'' ''main'']"

section \<open>Properties\<close>

subsection \<open>The resolver\<close>

text \<open>
  C1. Rule 3 of the resolver is meant to be symmetric: of two findings whose sink frames
  lack a function name, the one whose sink frame has a package is the more specific, in
  either argument position. The code ranks the first argument more specific in both
  positions: with the module-level finding first the test \<open>fr1.Package == "" &&
  fr2.Package != ""\<close> answers \<open>-1\<close> where \<open>1\<close> is due.
\<close>

theorem moreSpecific_rule3_asymmetric:
  "moreSpecific package_finding module_finding = Some (- 1) \<and>
   moreSpecific module_finding package_finding = Some (- 1)"
  by (simp add: moreSpecific_def module_finding_def package_finding_def
      ex_finding_def ex_frame_def)

text \<open>
  C9. The length of the traces dominates: two traces of more than one frame are ranked
  equal; a trace of more than one frame beats one of at most one frame, in either
  position; and the answer depends on the fields of the frames only when both traces
  have exactly one frame (findings with the same trace lengths get the same answer
  otherwise).
\<close>

theorem moreSpecific_trace_length:
  "(length (Trace f1) > 1 \<and> length (Trace f2) > 1 \<longrightarrow> moreSpecific f1 f2 = Some 0) \<and>
   (length (Trace f1) > 1 \<and> \<not> length (Trace f2) > 1 \<longrightarrow> moreSpecific f1 f2 = Some (- 1)) \<and>
   (\<not> length (Trace f1) > 1 \<and> length (Trace f2) > 1 \<longrightarrow> moreSpecific f1 f2 = Some 1) \<and>
   (\<not> (length (Trace f1) = 1 \<and> length (Trace f2) = 1) \<and>
    length (Trace g1) = length (Trace f1) \<and> length (Trace g2) = length (Trace f2) \<longrightarrow>
      moreSpecific g1 g2 = moreSpecific f1 f2)"
  by (cases "Trace f1"; cases "Trace f2"; cases "Trace g1"; cases "Trace g2")
     (auto simp: moreSpecific_def)

theorem moreSpecific_trace_length_witness:
  "length (Trace call_finding) > 1 \<and> length (Trace call_finding2) > 1 \<and>
   \<not> length (Trace module_finding) > 1 \<and>
   moreSpecific call_finding call_finding2 = Some 0 \<and>
   moreSpecific call_finding module_finding = Some (- 1) \<and>
   moreSpecific module_finding call_finding = Some 1 \<and>
   moreSpecific call_finding2 package_finding = moreSpecific call_finding module_finding"
proof -
  have l: "length (Trace call_finding) = 2" "length (Trace call_finding2) = 2"
    "length (Trace module_finding) = 1" "length (Trace package_finding) = 1"
    by (simp_all add: call_finding_def call_finding2_def module_finding_def
        package_finding_def ex_finding_def)
  have a: "moreSpecific call_finding call_finding2 = Some 0"
    using moreSpecific_trace_length [of call_finding call_finding2 call_finding call_finding2]
    by (simp only: l) simp
  have b: "moreSpecific call_finding module_finding = Some (- 1) \<and>
    moreSpecific call_finding2 package_finding = moreSpecific call_finding module_finding"
    using moreSpecific_trace_length [of call_finding module_finding call_finding2 package_finding]
    by (simp only: l) simp
  have c: "moreSpecific module_finding call_finding = Some 1"
    using moreSpecific_trace_length [of module_finding call_finding module_finding call_finding]
    by (simp only: l) simp
  show ?thesis
    using a b c by (simp add: l)
qed

subsection \<open>Levels\<close>



subsection \<open>The message\<close>

lemma sinks_map:
  "\<forall>f\<in>set fs. Trace f \<noteq> [] \<Longrightarrow> sinks fs = Some (map (\<lambda>f. hd (Trace f)) fs)"
  by (induction fs) (auto simp: sink_def split: list.splits)

lemma sort_remdups_set: "sort (remdups xs) = sorted_list_of_set (set xs)"
  by (simp add: sorted_list_of_set_sort_remdups)

text \<open>
  The keys of \<open>uniqueElems\<close> may be visited in any order: sort.Strings gives the same
  list.
\<close>

lemma sort_visit_unique:
  assumes "distinct ks" and "set ks = set xs"
  shows "sort ks = sort (remdups xs)"
proof -
  have "sort ks = sort (remdups ks)"
    using assms(1) by (simp add: distinct_remdups_id)
  then show ?thesis by (simp add: assms(2) sort_remdups_set)
qed

lemma sorted_list_a_b: "sorted_list_of_set {''a'', ''b''} = [''a'', ''b'']"
proof -
  have "sorted_list_of_set (set [''a'', ''b'']) = [''a'', ''b'']"
    unfolding sorted_list_of_set_sort_remdups by simp
  then show ?thesis by simp
qed

text \<open>
  C6. For a group that is not empty, of findings with a sink frame: the message is "Your
  code", then the verb clause of the tier of the head's sink frame, with the number of
  unique units (the sink packages for the function and package tiers, the sink modules
  for the module tier), the noun with an "s" iff that number is not 1, and the units
  without duplicates, sorted and joined by commas; nothing follows the clause for the
  function tier. Scenario B is the witness.
\<close>

theorem resultMessage_enumeration:
  assumes "fs \<noteq> []" and "\<forall>f\<in>set fs. Trace f \<noteq> []"
  shows "\<exists>q. resultMessage fs (Some cf) =
           Some (''Your code '' @
                 clause (frame_tier (hd (Trace (hd fs)))) (card (units fs))
                   (list_elems (sorted_list_of_set (units fs))) @ q) \<and>
             (frame_tier (hd (Trace (hd fs))) = FunctionTier \<longrightarrow> q = [])"
proof -
  obtain f0 fs' where fs: "fs = f0 # fs'" using assms(1) by (cases fs) auto
  obtain fr0 tr0 where tr: "Trace f0 = fr0 # tr0"
    using assms(2) fs by (cases "Trace f0") auto
  have s: "sinks fs = Some (map (\<lambda>f. hd (Trace f)) fs)" using sinks_map [OF assms(2)] .
  have f: "first fs = Some f0" by (simp add: fs first_def)
  have k: "sink f0 = Some fr0" by (simp add: sink_def tr)
  have h: "hd (Trace (hd fs)) = fr0" by (simp add: fs tr)
  have um: "frame_tier fr0 = ModuleTier \<Longrightarrow>
      units fs = set (map Module (map (\<lambda>f. hd (Trace f)) fs))"
    unfolding units_def h by (auto simp: unit_of_def)
  have up: "frame_tier fr0 \<noteq> ModuleTier \<Longrightarrow>
      units fs = set (map Package (map (\<lambda>f. hd (Trace f)) fs))"
    unfolding units_def h by (cases "frame_tier fr0") (auto simp: unit_of_def)
  show ?thesis
  proof (cases "frame_tier fr0")
    case ModuleTier
    then have e: "Function fr0 = []" "Package fr0 = []"
      by (auto simp: frame_tier_def split: if_splits)
    show ?thesis
      unfolding h ModuleTier um [OF ModuleTier]
      by (simp add: resultMessage_def f k s e sort_remdups_set choose_str_def plural_s_def
          Let_def del: set_map)
  next
    case PackageTier
    then have e: "Function fr0 = []" "Package fr0 \<noteq> []"
      by (auto simp: frame_tier_def split: if_splits)
    have n: "frame_tier fr0 \<noteq> ModuleTier" using PackageTier by simp
    show ?thesis
      unfolding h PackageTier up [OF n]
      by (simp add: resultMessage_def f k s e sort_remdups_set choose_str_def plural_s_def
          Let_def del: set_map)
  next
    case FunctionTier
    then have e: "Function fr0 \<noteq> []"
      by (auto simp: frame_tier_def split: if_splits)
    have n: "frame_tier fr0 \<noteq> ModuleTier" using FunctionTier by simp
    show ?thesis
      unfolding h FunctionTier up [OF n]
      by (simp add: resultMessage_def f k s e sort_remdups_set choose_str_def plural_s_def
          Let_def del: set_map)
  qed
qed

theorem resultMessage_enumeration_witness:
  "[finding_a, finding_b] \<noteq> [] \<and> Trace finding_a \<noteq> [] \<and> Trace finding_b \<noteq> [] \<and>
   resultMessage [finding_a, finding_b] (Some symbol_config) =
     Some ''Your code calls vulnerable functions in 2 packages (a, b).''"
proof -
  have t: "\<forall>f\<in>set [finding_a, finding_b]. Trace f \<noteq> []"
    by (simp add: finding_a_def finding_b_def ex_finding_def)
  have ft: "frame_tier (hd (Trace (hd [finding_a, finding_b]))) = FunctionTier"
    by (simp add: finding_a_def ex_finding_def ex_frame_def frame_tier_def)
  have u: "units [finding_a, finding_b] = {''a'', ''b''}"
    unfolding units_def ft
    by (simp add: finding_a_def finding_b_def ex_finding_def ex_frame_def unit_of_def)
  have c: "card {''a'', ''b''} = 2" by simp
  from resultMessage_enumeration [of "[finding_a, finding_b]" symbol_config, OF _ t]
  show ?thesis
    unfolding ft u sorted_list_a_b c using t
    by (auto simp: plural_s_def decimal.simps)
qed

text \<open>
  C7. For a package-tier group under a symbol-level scan the qualifier is meant to be
  exactly ", but doesn't appear to call any of the vulnerable symbols.", with the
  apostrophe U+0027 that the module branch writes. The package branch writes the
  typographic apostrophe U+2019 (the bytes E2 80 99) instead, so the message is not the
  imports clause followed by that string.
\<close>

theorem resultMessage_package_qualifier_bytes:
  "resultMessage [package_finding] (Some symbol_config) =
     Some (''Your code imports 1 vulnerable package (example.com/m/p), but doesn'' @
           [CHR 0xE2, CHR 0x80, CHR 0x99] @
           ''t appear to call any of the vulnerable symbols.'') \<and>
   resultMessage [package_finding] (Some symbol_config) \<noteq>
     Some (''Your code imports 1 vulnerable package (example.com/m/p)'' @
           '', but doesn'' @ [CHR 0x27] @
           ''t appear to call any of the vulnerable symbols.'')"
  by (simp add: resultMessage_def package_finding_def ex_finding_def ex_frame_def first_def
      sink_def choose_str_def decimal.simps pkg_no_call_def symbol_config_def WantSymbols_def)

subsection \<open>Flush\<close>

text \<open>
  C8. A failure of the write is meant to be returned by \<open>Flush\<close>, as a failure of the
  encoder is. The value of \<open>h.w.Write(s)\<close> is dropped: with an encoder that succeeds and a
  writer that reports an error, \<open>Flush\<close> returns nil.
\<close>

theorem Flush_drops_write_error:
  "snd (snd (failing_write [] ''{}'')) = Some ''write failed'' \<and>
   Flush fixed_marshal failing_write [] [] defined_handler = Some (None, defined_handler)"
  by (simp add: Flush_def toSarif_def rules_def results_def defined_handler_def Config_def
      OSV_def NewHandler_def fixed_marshal_def failing_write_def)

text \<open>
  C10. After \<open>Config\<close> and with no finding submitted, the document has the version 2.1.0,
  the schema URI of SARIF 2.1.0 and one run, which carries the names and the
  configuration and no rule and no result; when the encoder succeeds on it, \<open>Flush\<close>
  hands its bytes to the writer and returns nil.
\<close>

theorem empty_report:
  assumes "cfg h = Some c" and "findings h = Map.empty"
    and "visit (findings h) ks1" and "visit (findings h) ks2"
  shows "toSarif ks1 ks2 h =
      Some \<lparr>Log_Version = ''2.1.0'',
            Schema = ''https://json.schemastore.org/sarif-2.1.0.json'',
            Runs = [\<lparr>Run_Tool = \<lparr>Tool_Driver =
                      \<lparr>Name = ScannerName c, Driver_Version = ScannerVersion c,
                       InformationURI = ''https://pkg.go.dev/golang.org/x/vuln/cmd/govulncheck'',
                       Driver_Properties = c, Rules = []\<rparr>\<rparr>,
                    Results = []\<rparr>]\<rparr> \<and>
    (\<forall>s. marshal \<lparr>Log_Version = ''2.1.0'',
            Schema = ''https://json.schemastore.org/sarif-2.1.0.json'',
            Runs = [\<lparr>Run_Tool = \<lparr>Tool_Driver =
                      \<lparr>Name = ScannerName c, Driver_Version = ScannerVersion c,
                       InformationURI = ''https://pkg.go.dev/golang.org/x/vuln/cmd/govulncheck'',
                       Driver_Properties = c, Rules = []\<rparr>\<rparr>,
                    Results = []\<rparr>]\<rparr> = Inr s \<longrightarrow>
       Flush marshal write ks1 ks2 h = Some (None, h\<lparr>w := fst (write (w h) s)\<rparr>))"
proof -
  have k: "ks1 = []" "ks2 = []" using assms(2,3,4) by (simp_all add: visit_def)
  have t: "toSarif ks1 ks2 h =
      Some \<lparr>Log_Version = ''2.1.0'',
            Schema = ''https://json.schemastore.org/sarif-2.1.0.json'',
            Runs = [\<lparr>Run_Tool = \<lparr>Tool_Driver =
                      \<lparr>Name = ScannerName c, Driver_Version = ScannerVersion c,
                       InformationURI = ''https://pkg.go.dev/golang.org/x/vuln/cmd/govulncheck'',
                       Driver_Properties = c, Rules = []\<rparr>\<rparr>,
                    Results = []\<rparr>]\<rparr>"
    by (simp add: toSarif_def rules_def results_def k assms(1))
  show ?thesis
    unfolding Flush_def t by simp
qed

theorem empty_report_witness:
  "cfg defined_handler = Some symbol_config \<and>
   findings defined_handler = Map.empty \<and>
   visit (findings defined_handler) [] \<and>
   fixed_marshal
     \<lparr>Log_Version = ''2.1.0'',
      Schema = ''https://json.schemastore.org/sarif-2.1.0.json'',
      Runs = [\<lparr>Run_Tool = \<lparr>Tool_Driver =
                \<lparr>Name = ''govulncheck'', Driver_Version = ''v1.0.0'',
                 InformationURI = ''https://pkg.go.dev/golang.org/x/vuln/cmd/govulncheck'',
                 Driver_Properties = symbol_config, Rules = []\<rparr>\<rparr>,
              Results = []\<rparr>]\<rparr> = Inr ''{}'' \<and>
   Flush fixed_marshal appending_write [] [] defined_handler =
     Some (None, defined_handler\<lparr>w := ''{}''\<rparr>)"
proof -
  have a: "cfg defined_handler = Some symbol_config"
    by (simp add: defined_handler_def Config_def)
  have b: "findings defined_handler = Map.empty"
    by (simp add: defined_handler_def Config_def OSV_def NewHandler_def)
  have v: "visit (findings defined_handler) []" by (simp add: visit_def b)
  have wh: "w defined_handler = []"
    by (simp add: defined_handler_def Config_def OSV_def NewHandler_def)
  have m: "\<And>l. fixed_marshal l = Inr ''{}''" by (simp add: fixed_marshal_def)
  have "Flush fixed_marshal appending_write [] [] defined_handler =
     Some (None, defined_handler\<lparr>w := ''{}''\<rparr>)"
    using empty_report [OF a b v v, of fixed_marshal appending_write]
    by (simp add: m appending_write_def wh)
  then show ?thesis using a b v m by simp
qed

subsection \<open>The aggregator\<close>

lemma group_of_upd:
  "group_of (h\<lparr>findings := (findings h)(k \<mapsto> fs)\<rparr>) k' =
     (if k' = k then fs else group_of h k')"
  by (simp add: group_of_def)

lemma moreSpecific_ok:
  assumes "call_stack_ok f" and "call_stack_ok g"
  shows "\<exists>ms. moreSpecific f g = Some ms \<and> (ms = 0 \<longrightarrow> sink_tier f = sink_tier g)"
  using assms
  by (cases "Trace f"; cases "Trace g"; cases "tl (Trace f)"; cases "tl (Trace g)")
     (auto simp: call_stack_ok_def moreSpecific_def sink_tier_def sink_def frame_tier_def)

lemma moreSpecific_tiers:
  assumes "call_stack_ok f" and "call_stack_ok g"
    and "sink_tier f = Some tf" and "sink_tier g = Some tg"
  shows "(tier_rank tg < tier_rank tf \<longrightarrow> moreSpecific f g = Some (- 1)) \<and>
         (tier_rank tf < tier_rank tg \<and> tg = FunctionTier \<longrightarrow> moreSpecific f g = Some 1)"
  using assms
  by (cases "Trace f"; cases "Trace g"; cases "tl (Trace f)"; cases "tl (Trace g)")
     (auto simp: call_stack_ok_def moreSpecific_def sink_tier_def sink_def frame_tier_def
        split: if_splits)

text \<open>
  C2, as amended. For a group that is not empty and a submitted finding, both the head of
  the group and the finding being ranked by their sink frames (a trace of more than one
  frame has a function name in its sink frame): a finding of a strictly higher tier than
  the head replaces the group by itself alone, and a finding of a strictly lower tier
  than a function-tier head leaves the handler as it was. A module-tier finding submitted
  to a package-tier group is left out.
\<close>

theorem monotonic_replacement:
  assumes "group_of h (F_OSV f) = g # gs"
    and "call_stack_ok f" and "call_stack_ok g"
    and "sink_tier f = Some tf" and "sink_tier g = Some tg"
  shows "(tier_rank tg < tier_rank tf \<longrightarrow>
            Finding f h = Some (h\<lparr>findings := (findings h)(F_OSV f \<mapsto> [f])\<rparr>)) \<and>
         (tier_rank tf < tier_rank tg \<and> tg = FunctionTier \<longrightarrow>
            Finding f h = Some (h\<lparr>findings := (findings h)(F_OSV f \<mapsto> g # gs)\<rparr>))"
  using moreSpecific_tiers [OF assms(2,3,4,5)] assms(1)
  by (auto simp: Finding_def)

text \<open>
  A function-tier finding with a single frame, submitted to a group whose head has a
  trace of two frames and a package-tier sink frame, is discarded: the length of the trace
  decides before the sink frames are looked at.
\<close>

theorem monotonic_replacement_counterexample:
  "Finding coarse_stack_finding (NewHandler []) = Some coarse_handler \<and>
   group_of coarse_handler ''V1'' = [coarse_stack_finding] \<and>
   sink_tier coarse_stack_finding = Some PackageTier \<and>
   sink_tier single_call_finding = Some FunctionTier \<and>
   tier_rank PackageTier < tier_rank FunctionTier \<and>
   map_option (\<lambda>h. group_of h ''V1'') (Finding single_call_finding coarse_handler) =
     Some [coarse_stack_finding]"
  by (simp add: Finding_def group_of_def NewHandler_def coarse_handler_def moreSpecific_def
      coarse_stack_finding_def single_call_finding_def ex_finding_def ex_frame_def
      sink_tier_def sink_def frame_tier_def)

theorem monotonic_replacement_witness:
  "group_of module_handler (F_OSV package_finding) = module_finding # [] \<and>
   sink_tier package_finding = Some PackageTier \<and>
   sink_tier module_finding = Some ModuleTier \<and>
   Finding package_finding module_handler =
     Some (module_handler\<lparr>findings := [''V1'' \<mapsto> [package_finding]]\<rparr>) \<and>
   group_of call_handler (F_OSV module_finding) = single_call_finding # [] \<and>
   sink_tier single_call_finding = Some FunctionTier \<and>
   Finding module_finding call_handler = Some call_handler"
proof -
  have k: "F_OSV package_finding = ''V1''" "F_OSV module_finding = ''V1''"
    by (simp_all add: package_finding_def module_finding_def ex_finding_def)
  have g1: "group_of module_handler (F_OSV package_finding) = module_finding # []"
    by (simp add: group_of_def module_handler_def k)
  have g2: "group_of call_handler (F_OSV module_finding) = single_call_finding # []"
    by (simp add: group_of_def call_handler_def k)
  have ok: "call_stack_ok package_finding" "call_stack_ok module_finding"
    "call_stack_ok single_call_finding"
    by (simp_all add: call_stack_ok_def package_finding_def module_finding_def
        single_call_finding_def ex_finding_def)
  have t: "sink_tier package_finding = Some PackageTier"
    "sink_tier module_finding = Some ModuleTier"
    "sink_tier single_call_finding = Some FunctionTier"
    by (simp_all add: sink_tier_def sink_def frame_tier_def package_finding_def
        module_finding_def single_call_finding_def ex_finding_def ex_frame_def)
  have a: "Finding package_finding module_handler =
     Some (module_handler\<lparr>findings := [''V1'' \<mapsto> [package_finding]]\<rparr>)"
    using monotonic_replacement [OF g1 ok(1) ok(2) t(1) t(2)]
    by (simp add: k module_handler_def)
  have b: "Finding module_finding call_handler = Some call_handler"
    using monotonic_replacement [OF g2 ok(2) ok(3) t(2) t(3)]
    by (simp add: k call_handler_def)
  show ?thesis using g1 g2 t a b by simp
qed

lemma Finding_inv:
  assumes "inv_h h" and "call_stack_ok f"
  shows "\<exists>h'. Finding f h = Some h' \<and> inv_h h'"
proof (cases "group_of h (F_OSV f)")
  case Nil
  then show ?thesis using assms by (auto simp: Finding_def inv_h_def group_of_upd)
next
  case (Cons g gs)
  have all: "\<forall>x\<in>set (group_of h (F_OSV f)). call_stack_ok x \<and> sink_tier x = sink_tier (hd (group_of h (F_OSV f)))"
    using assms(1) unfolding inv_h_def by blast
  then have g: "call_stack_ok g" by (simp add: Cons)
  obtain ms where ms: "moreSpecific f g = Some ms" "ms = 0 \<longrightarrow> sink_tier f = sink_tier g"
    using moreSpecific_ok [OF assms(2) g] by blast
  have hd: "\<forall>x\<in>set (g # gs). call_stack_ok x \<and> sink_tier x = sink_tier g"
    using all by (simp add: Cons)
  have oth: "\<And>k. k \<noteq> F_OSV f \<Longrightarrow>
      \<forall>x\<in>set (group_of h k). call_stack_ok x \<and> sink_tier x = sink_tier (hd (group_of h k))"
    using assms(1) unfolding inv_h_def by blast
  define fs' where "fs' = (if ms = - 1 then [f] else if ms = 0 then (g # gs) @ [f] else g # gs)"
  have F: "Finding f h = Some (h\<lparr>findings := (findings h)(F_OSV f \<mapsto> fs')\<rparr>)"
    by (simp add: Finding_def Cons ms(1) fs'_def)
  have new: "\<forall>x\<in>set fs'. call_stack_ok x \<and> sink_tier x = sink_tier (hd fs')"
    using hd ms(2) assms(2) by (simp add: fs'_def)
  have "inv_h (h\<lparr>findings := (findings h)(F_OSV f \<mapsto> fs')\<rparr>)"
    unfolding inv_h_def group_of_upd using new oth by simp
  then show ?thesis using F by simp
qed

lemma submit_all_inv:
  assumes "\<forall>f\<in>set fs. call_stack_ok f" and "inv_h h"
  shows "\<exists>h'. submit_all fs h = Some h' \<and> inv_h h'"
  using assms
proof (induction fs arbitrary: h)
  case Nil
  then show ?case by simp
next
  case (Cons f fs)
  then obtain h1 where "Finding f h = Some h1" "inv_h h1" using Finding_inv by fastforce
  then show ?case using Cons by simp
qed

text \<open>
  C3, as amended. After every sequence of findings from a new handler, each finding with
  a trace that is not empty and, when it has more than one frame, with a function name in
  its sink frame, no call has panicked and all members of every group have the same
  sink-frame tier.
\<close>

theorem homogeneity:
  assumes "\<forall>f\<in>set fs. call_stack_ok f"
  shows "\<exists>h'. submit_all fs (NewHandler wr) = Some h' \<and> (\<forall>k. homogeneous (group_of h' k))"
proof -
  have "inv_h (NewHandler wr)" by (simp add: inv_h_def group_of_def NewHandler_def)
  from submit_all_inv [OF assms this] obtain h' where
    "submit_all fs (NewHandler wr) = Some h'" "inv_h h'" by blast
  then show ?thesis by (auto simp: inv_h_def homogeneous_def)
qed

text \<open>
  Two findings with traces of two frames are ranked equal whatever their sink frames:
  a package-tier and a function-tier finding end up in the same group.
\<close>

theorem homogeneity_counterexample:
  "Trace coarse_stack_finding \<noteq> [] \<and> Trace call_finding \<noteq> [] \<and>
   map_option (\<lambda>h. map sink_tier (group_of h ''V1''))
     (submit_all [coarse_stack_finding, call_finding] (NewHandler ([] :: string))) =
     Some [Some PackageTier, Some FunctionTier]"
  by (simp add: Finding_def group_of_def NewHandler_def moreSpecific_def
      coarse_stack_finding_def call_finding_def ex_finding_def ex_frame_def
      sink_tier_def sink_def frame_tier_def)

theorem homogeneity_witness:
  "\<exists>h'. submit_all [module_finding, package_finding, call_finding, call_finding2]
          (NewHandler ([] :: string)) = Some h' \<and>
        map sink_tier (group_of h' ''V1'') = [Some FunctionTier, Some FunctionTier] \<and>
        map sink_tier (group_of h' ''V2'') = []"
proof -
  have ok: "\<forall>f\<in>set [module_finding, package_finding, call_finding, call_finding2].
      call_stack_ok f"
    by (simp add: call_stack_ok_def package_finding_def module_finding_def
        call_finding_def call_finding2_def ex_finding_def ex_frame_def)
  from homogeneity [OF ok, of "[] :: string"] obtain h' where
    h: "submit_all [module_finding, package_finding, call_finding, call_finding2]
          (NewHandler ([] :: string)) = Some h'" by blast
  have "submit_all [module_finding, package_finding, call_finding, call_finding2]
          (NewHandler ([] :: string)) =
      Some \<lparr>w = [], cfg = None, osvs = Map.empty,
            findings = [''V1'' \<mapsto> [call_finding, call_finding2]]\<rparr>"
    by (simp add: Finding_def group_of_def NewHandler_def moreSpecific_def
        package_finding_def module_finding_def call_finding_def call_finding2_def
        ex_finding_def ex_frame_def)
  with h have "h' = \<lparr>w = [], cfg = None, osvs = Map.empty,
            findings = [''V1'' \<mapsto> [call_finding, call_finding2]]\<rparr>" by simp
  then have "map sink_tier (group_of h' ''V1'') = [Some FunctionTier, Some FunctionTier] \<and>
        map sink_tier (group_of h' ''V2'') = []"
    by (simp add: group_of_def sink_tier_def sink_def frame_tier_def call_finding_def
        call_finding2_def ex_finding_def ex_frame_def)
  with h show ?thesis by (intro exI [of _ h']) simp
qed

subsection \<open>Determinism\<close>

lemma all_equal_replicate:
  assumes "\<forall>x\<in>set zs. x = k"
  shows "zs = replicate (length zs) k"
  using assms by (induction zs) auto

lemma all_equal_mset_eq:
  assumes "mset as = mset bs" and "\<forall>x\<in>set as. x = k"
  shows "as = bs"
proof -
  have s: "set bs = set as" using assms(1) by (metis set_mset_mset)
  have l: "length bs = length as" using assms(1) by (metis size_mset)
  have "as = replicate (length as) k" using all_equal_replicate [OF assms(2)] .
  moreover have "bs = replicate (length bs) k"
    using all_equal_replicate [of bs k] assms(2) s by simp
  ultimately show ?thesis using l by simp
qed

lemma sort_key_mset_ties:
  assumes "mset xs = mset ys"
    and "\<forall>x\<in>set xs. \<forall>y\<in>set xs. key x = key y \<longrightarrow> x = y"
  shows "sort_key key xs = sort_key key ys"
proof (rule properties_for_sort_key)
  show "mset (sort_key key ys) = mset xs" using assms(1) by simp
  show "sorted (map key (sort_key key ys))" by simp
  fix k assume "k \<in> set (sort_key key ys)"
  then have k: "k \<in> set xs" using assms(1) by (metis set_sort set_mset_mset)
  have c: "(\<lambda>x. key k = key x) = (\<lambda>x. key x = key k)" by auto
  have "filter (\<lambda>x. key x = key k) ys = filter (\<lambda>x. key x = key k) xs"
  proof (rule all_equal_mset_eq [where k = k])
    show "mset (filter (\<lambda>x. key x = key k) ys) = mset (filter (\<lambda>x. key x = key k) xs)"
      using assms(1) by simp
    have "set ys = set xs" using assms(1) by (metis set_mset_mset)
    then show "\<forall>x\<in>set (filter (\<lambda>x. key x = key k) ys). x = k"
      using assms(2) k by auto
  qed
  then show "filter (\<lambda>x. key k = key x) (sort_key key ys) = filter (\<lambda>x. key k = key x) xs"
    unfolding c by (simp add: sort_key_stable)
qed

lemma moreSpecific_levels:
  assumes "well_formed f" and "well_formed g"
  shows "moreSpecific f g =
    Some (if code_rank g < code_rank f \<or> (code_rank f = 0 \<and> code_rank g = 1) then - 1
          else if code_rank f = code_rank g then 0 else 1)"
  using assms
  by (cases "Trace f"; cases "Trace g"; cases "tl (Trace f)"; cases "tl (Trace g)")
     (auto simp: well_formed_def moreSpecific_def code_rank_def split: if_splits)

lemma max_rank_append: "max_rank (fs @ gs) = max (max_rank fs) (max_rank gs)"
  by (induction fs) auto

lemma max_rank_ge: "f \<in> set fs \<Longrightarrow> code_rank f \<le> max_rank fs"
  by (induction fs) auto

lemma max_rank_attained: "fs \<noteq> [] \<Longrightarrow> \<exists>f\<in>set fs. code_rank f = max_rank fs"
proof (induction fs)
  case Nil
  then show ?case by simp
next
  case (Cons a fs)
  show ?case
  proof (cases "fs = []")
    case True
    then show ?thesis by simp
  next
    case False
    then obtain f where "f \<in> set fs" "code_rank f = max_rank fs" using Cons.IH by blast
    then show ?thesis by (cases "code_rank a \<le> max_rank fs") (auto simp: max_def)
  qed
qed

lemma top_nonempty: "fs \<noteq> [] \<Longrightarrow> top_level fs \<noteq> []"
  using max_rank_attained [of fs] by (auto simp: top_level_def filter_empty_conv)

lemma top_rank: "f \<in> set (top_level fs) \<Longrightarrow> f \<in> set fs \<and> code_rank f = max_rank fs"
  by (simp add: top_level_def)

lemma top_snoc:
  "top_level (fs @ [f]) =
    (if max_rank fs < code_rank f then [f]
     else if code_rank f = max_rank fs then top_level fs @ [f]
     else top_level fs)"
proof -
  have m: "max_rank (fs @ [f]) = max (max_rank fs) (code_rank f)"
    by (simp add: max_rank_append)
  show ?thesis
  proof (cases "max_rank fs < code_rank f")
    case True
    then have "\<forall>x\<in>set fs. code_rank x \<noteq> code_rank f"
      using max_rank_ge by fastforce
    then have "filter (\<lambda>x. code_rank x = code_rank f) fs = []"
      by (simp add: filter_empty_conv)
    then show ?thesis using True by (simp add: top_level_def m max_def)
  next
    case False
    then show ?thesis by (auto simp: top_level_def m max_def)
  qed
qed

lemma max_rank_set_le:
  assumes "set fs \<subseteq> set gs"
  shows "max_rank fs \<le> max_rank gs"
proof (cases "fs = []")
  case True
  then show ?thesis by simp
next
  case False
  then obtain f where "f \<in> set fs" "code_rank f = max_rank fs"
    using max_rank_attained by blast
  then show ?thesis using max_rank_ge [of f gs] assms by auto
qed

lemma max_rank_mset: "mset fs = mset gs \<Longrightarrow> max_rank fs = max_rank gs"
proof -
  assume "mset fs = mset gs"
  then have "set fs = set gs" by (metis set_mset_mset)
  then show ?thesis
    using max_rank_set_le [of fs gs] max_rank_set_le [of gs fs] by simp
qed

lemma top_mset: "mset fs = mset gs \<Longrightarrow> mset (top_level fs) = mset (top_level gs)"
  by (simp add: top_level_def max_rank_mset [of fs gs])

lemma run_snoc: "run (xs @ [x]) h = run xs h \<bind> submit x"
  by (induction xs arbitrary: h) (auto split: bind_splits)

lemma reported_append: "reported (xs @ ys) = reported xs @ reported ys"
  by (induction xs rule: reported.induct) auto

lemma defined_append: "defined (xs @ ys) = defined xs @ defined ys"
  by (induction xs rule: defined.induct) auto

lemma Finding_merge:
  assumes "well_formed f" and "\<forall>x\<in>set (group_of h (F_OSV f)). well_formed x"
  shows "Finding f h =
    Some (h\<lparr>findings := (findings h)(F_OSV f \<mapsto> merge f (group_of h (F_OSV f)))\<rparr>)"
proof (cases "group_of h (F_OSV f)")
  case Nil
  then show ?thesis by (simp add: Finding_def)
next
  case (Cons g gs)
  then have "well_formed g" using assms(2) by simp
  from moreSpecific_levels [OF assms(1) this] show ?thesis
    by (simp add: Finding_def Cons)
qed

lemma tracks_step:
  assumes "tracks fs gs"
  shows "tracks (fs @ [f]) (merge f gs)"
proof (cases "fs = []")
  case True
  then have "gs = []" using assms by (simp add: tracks_def)
  then show ?thesis using True by (simp add: tracks_def top_level_def)
next
  case False
  then have g: "gs \<noteq> []" "set gs \<subseteq> set fs" "settled fs \<Longrightarrow> gs = top_level fs"
    using assms by (simp_all add: tracks_def)
  obtain x xs where gx: "gs = x # xs" using g(1) by (cases gs) auto
  have xin: "x \<in> set fs" using g(2) gx by simp
  have ne: "merge f gs \<noteq> []" by (simp add: gx)
  have sub: "set (merge f gs) \<subseteq> set (fs @ [f])" using g(2) by (auto simp: gx)
  have "merge f gs = top_level (fs @ [f])" if s: "settled (fs @ [f])"
  proof (cases "settled fs")
    case True
    then have t: "top_level fs = x # xs" using g(3) gx by simp
    then have "x \<in> set (top_level fs)" by simp
    then have rx: "code_rank x = max_rank fs" using top_rank by blast
    have ns: "\<not> (code_rank f = 0 \<and> max_rank fs = 1)"
    proof
      assume a: "code_rank f = 0 \<and> max_rank fs = 1"
      then have "max_rank (fs @ [f]) = 1" by (simp add: max_rank_append)
      then have "\<forall>p\<in>set (fs @ [f]). \<forall>q\<in>set (fs @ [f]). \<not> (code_rank p = 0 \<and> code_rank q = 1)"
        using s by (simp add: settled_def)
      then show False using a xin rx by auto
    qed
    have "merge f (x # xs) = top_level (fs @ [f])"
      using ns by (auto simp: top_snoc t rx)
    then show ?thesis by (simp add: gx)
  next
    case False
    then have m: "max_rank fs < 2"
      and mix: "\<exists>p\<in>set fs. \<exists>q\<in>set fs. code_rank p = 0 \<and> code_rank q = 1"
      by (auto simp: settled_def)
    have "2 \<le> max_rank (fs @ [f])" using s mix by (auto simp: settled_def)
    then have rf: "2 \<le> code_rank f" using m by (simp add: max_rank_append)
    have "code_rank x \<le> max_rank fs" using max_rank_ge [OF xin] .
    then have "code_rank x < code_rank f" and "max_rank fs < code_rank f" using rf m by simp_all
    then show ?thesis by (simp add: gx top_snoc)
  qed
  then show ?thesis using False ne sub by (simp add: tracks_def)
qed

lemma tracks_members: "tracks fs gs \<Longrightarrow> set gs \<subseteq> set fs"
  by (auto simp: tracks_def split: if_splits)

lemma run_groups:
  assumes "\<forall>f\<in>set (reported xs). well_formed f"
    and "findings h0 = Map.empty"
  shows "\<exists>hx. run xs h0 = Some hx \<and> cfg hx = cfg h0 \<and> w hx = w h0 \<and>
    (\<forall>k. tracks (keyed k (reported xs)) (group_of hx k)) \<and>
    (\<forall>k. findings hx k = None \<longleftrightarrow> keyed k (reported xs) = []) \<and>
    (\<forall>k. osvs hx k =
        (if defs_for k (defined xs) = [] then osvs h0 k
         else Some (last (defs_for k (defined xs)))))"
  using assms(1)
proof (induction xs rule: rev_induct)
  case Nil
  then show ?case using assms(2) by (simp add: keyed_def defs_for_def tracks_def group_of_def)
next
  case (snoc x xs)
  have p1: "\<forall>f\<in>set (reported xs). well_formed f"
    using snoc.prems(1) by (simp add: reported_append)
  from snoc.IH [OF p1] obtain hx where hx: "run xs h0 = Some hx"
    "cfg hx = cfg h0" "w hx = w h0"
    "\<And>k. tracks (keyed k (reported xs)) (group_of hx k)"
    "\<And>k. findings hx k = None \<longleftrightarrow> keyed k (reported xs) = []"
    "\<And>k. osvs hx k =
        (if defs_for k (defined xs) = [] then osvs h0 k
         else Some (last (defs_for k (defined xs))))"
    by blast
  show ?case
  proof (cases x)
    case (SubmitOSV e)
    have r: "run (xs @ [x]) h0 = Some (OSV e hx)"
      by (simp add: run_snoc hx(1) SubmitOSV)
    have rep: "reported (xs @ [x]) = reported xs" "defined (xs @ [x]) = defined xs @ [e]"
      by (simp_all add: reported_append defined_append SubmitOSV)
    have g: "tracks (keyed k (reported xs)) (group_of (OSV e hx) k)" for k
      using hx(4) [of k] by (simp add: group_of_def OSV_def)
    have d: "findings (OSV e hx) k = None \<longleftrightarrow> keyed k (reported xs) = []" for k
      using hx(5) [of k] by (simp add: OSV_def)
    have c: "cfg (OSV e hx) = cfg h0" "w (OSV e hx) = w h0"
      by (simp_all add: OSV_def hx(2,3))
    have o: "osvs (OSV e hx) k =
        (if defs_for k (defined xs @ [e]) = [] then osvs h0 k
         else Some (last (defs_for k (defined xs @ [e]))))" for k
      by (simp add: OSV_def hx(6) defs_for_def)
    show ?thesis
      unfolding rep by (intro exI [of _ "OSV e hx"] conjI allI r c g d o)
  next
    case (SubmitFinding f)
    have rep: "reported (xs @ [x]) = reported xs @ [f]" "defined (xs @ [x]) = defined xs"
      by (simp_all add: reported_append defined_append SubmitFinding)
    have wf: "well_formed f" using snoc.prems by (simp add: rep)
    have "set (group_of hx (F_OSV f)) \<subseteq> set (reported xs)"
      using tracks_members [OF hx(4) [of "F_OSV f"]] by (auto simp: keyed_def)
    then have wg: "\<forall>x\<in>set (group_of hx (F_OSV f)). well_formed x" using p1 by blast
    let ?h = "hx\<lparr>findings := (findings hx)(F_OSV f \<mapsto> merge f (group_of hx (F_OSV f)))\<rparr>"
    have r: "run (xs @ [x]) h0 = Some ?h"
      by (simp add: run_snoc hx(1) SubmitFinding Finding_merge [OF wf wg])
    have kf: "keyed (F_OSV f) (reported xs @ [f]) = keyed (F_OSV f) (reported xs) @ [f]"
      by (simp add: keyed_def)
    have other: "keyed k (reported xs @ [f]) = keyed k (reported xs)" if "k \<noteq> F_OSV f" for k
      using that by (auto simp: keyed_def)
    have t: "tracks (keyed k (reported xs @ [f])) (group_of ?h k)" for k
    proof (cases "k = F_OSV f")
      case True
      then show ?thesis
        using tracks_step [OF hx(4) [of "F_OSV f"], of f] by (simp add: group_of_upd kf)
    next
      case False
      then show ?thesis using hx(4) [of k] by (simp add: group_of_upd other)
    qed
    have d: "findings ?h k = None \<longleftrightarrow> keyed k (reported xs @ [f]) = []" for k
    proof (cases "k = F_OSV f")
      case True
      then show ?thesis by (simp add: kf)
    next
      case False
      then show ?thesis using hx(5) [of k] by (simp add: other)
    qed
    have c: "cfg ?h = cfg h0" "w ?h = w h0" by (simp_all add: hx(2,3))
    have o: "osvs ?h k =
        (if defs_for k (defined xs) = [] then osvs h0 k
         else Some (last (defs_for k (defined xs))))" for k
      by (simp add: hx(6))
    show ?thesis
      unfolding rep by (intro exI [of _ ?h] conjI allI r c t d o)
  qed
qed

lemma mix_covered_settled:
  assumes "mix_covered fs"
  shows "settled (keyed k fs)"
proof (cases "\<exists>f\<in>set (keyed k fs). \<exists>g\<in>set (keyed k fs). code_rank f = 0 \<and> code_rank g = 1")
  case True
  then obtain f g where fg: "f \<in> set fs" "g \<in> set fs" "F_OSV f = k" "F_OSV g = k"
    "code_rank f = 0" "code_rank g = 1" by (auto simp: keyed_def)
  have "\<exists>c\<in>set fs. F_OSV c = F_OSV f \<and> 2 \<le> code_rank c"
    using assms fg unfolding mix_covered_def by (elim ballE [of _ _ f] ballE [of _ _ g]) simp_all
  then obtain c where c: "c \<in> set fs" "F_OSV c = k" "2 \<le> code_rank c"
    using fg(3) by auto
  then have "c \<in> set (keyed k fs)" by (simp add: keyed_def)
  then have "code_rank c \<le> max_rank (keyed k fs)" using max_rank_ge by blast
  then show ?thesis using c(3) by (simp add: settled_def)
next
  case False
  then show ?thesis by (auto simp: settled_def)
qed

lemma tracks_settled:
  assumes "tracks fs gs" and "settled fs" and "fs \<noteq> []"
  shows "gs = top_level fs"
  using assms by (simp add: tracks_def)

lemma well_formed_flags:
  assumes "well_formed f"
  shows "Trace f \<noteq> [] \<and> (Function (hd (Trace f)) = [] \<longleftrightarrow> code_rank f < 2) \<and>
         (Package (hd (Trace f)) = [] \<longleftrightarrow> code_rank f = 0)"
  using assms
  by (cases "Trace f"; cases "tl (Trace f)")
     (auto simp: well_formed_def code_rank_def split: if_splits)

lemma sink_hd: "Trace f \<noteq> [] \<Longrightarrow> sink f = Some (hd (Trace f))"
  by (cases "Trace f") (auto simp: sink_def)

lemma first_hd: "fs \<noteq> [] \<Longrightarrow> first fs = Some (hd fs)"
  by (cases fs) (auto simp: first_def)

lemma stack_Some: "Trace f \<noteq> [] \<Longrightarrow> \<exists>s. stack f = Some s"
  by (simp add: stack_def sink_hd Let_def)

lemma stack_each_map:
  "\<forall>f\<in>set fs. Trace f \<noteq> [] \<Longrightarrow> stack_each fs = Some (map (\<lambda>f. the (stack f)) fs)"
proof (induction fs)
  case Nil
  then show ?case by simp
next
  case (Cons a fs)
  then obtain s where "stack a = Some s" using stack_Some [of a] by auto
  then show ?case using Cons by simp
qed

lemma level_flags:
  assumes "Trace f \<noteq> []" and "Trace g \<noteq> []"
    and "Function (hd (Trace f)) = [] \<longleftrightarrow> Function (hd (Trace g)) = []"
    and "Package (hd (Trace f)) = [] \<longleftrightarrow> Package (hd (Trace g)) = []"
  shows "level f c = level g c"
  using assms by (cases c) (simp_all add: level_def sink_hd)

lemma resultMessage_perm:
  assumes "set gx = set gy" and "gx \<noteq> []" and "gy \<noteq> []"
    and "\<forall>f\<in>set gx. Trace f \<noteq> []"
    and "Function (hd (Trace (hd gx))) = [] \<longleftrightarrow> Function (hd (Trace (hd gy))) = []"
    and "Package (hd (Trace (hd gx))) = [] \<longleftrightarrow> Package (hd (Trace (hd gy))) = []"
  shows "resultMessage gx c = resultMessage gy c"
proof -
  have ty: "\<forall>f\<in>set gy. Trace f \<noteq> []" using assms(1,4) by simp
  have hx: "hd gx \<in> set gx" and hy: "hd gy \<in> set gy" using assms(2,3) by simp_all
  have sx: "sink (hd gx) = Some (hd (Trace (hd gx)))" using hx assms(4) sink_hd by blast
  have sy: "sink (hd gy) = Some (hd (Trace (hd gy)))" using hy ty sink_hd by blast
  show ?thesis
    using assms(5,6)
    by (simp add: resultMessage_def first_hd [OF assms(2)] first_hd [OF assms(3)] sx sy
        sinks_map [OF assms(4)] sinks_map [OF ty] Let_def sort_remdups_set assms(1))
qed

lemma stacks_perm:
  assumes "mset gx = mset gy" and "gx \<noteq> []"
    and "\<forall>f\<in>set gx. Trace f \<noteq> []"
    and "Function (hd (Trace (hd gx))) = [] \<longleftrightarrow> Function (hd (Trace (hd gy))) = []"
    and "Function (hd (Trace (hd gx))) \<noteq> [] \<Longrightarrow>
      \<forall>f\<in>set gx. \<forall>g\<in>set gx. stack_label f = stack_label g \<longrightarrow> stack f = stack g"
  shows "stacks gx = stacks gy"
proof -
  have st: "set gx = set gy" using assms(1) by (metis set_mset_mset)
  have gy: "gy \<noteq> []" using assms(1,2) by auto
  have ty: "\<forall>f\<in>set gy. Trace f \<noteq> []" using st assms(3) by simp
  have hx: "hd gx \<in> set gx" and hy: "hd gy \<in> set gy" using assms(2) gy by simp_all
  have sx: "sink (hd gx) = Some (hd (Trace (hd gx)))" using hx assms(3) sink_hd by blast
  have sy: "sink (hd gy) = Some (hd (Trace (hd gy)))" using hy ty sink_hd by blast
  show ?thesis
  proof (cases "Function (hd (Trace (hd gx))) = []")
    case True
    then show ?thesis
      using assms(4)
      by (simp add: stacks_def first_hd [OF assms(2)] first_hd [OF gy] sx sy)
  next
    case False
    note tie = assms(5) [OF False]
    let ?S = "\<lambda>f. the (stack f)"
    let ?key = "\<lambda>s. Text (Stack_Message s)"
    have ms: "mset (map ?S gx) = mset (map ?S gy)" using assms(1) by (metis mset_map)
    have ties: "\<forall>x\<in>set (map ?S gx). \<forall>y\<in>set (map ?S gx). ?key x = ?key y \<longrightarrow> x = y"
    proof (intro ballI impI)
      fix x y assume x: "x \<in> set (map ?S gx)" and y: "y \<in> set (map ?S gx)"
        and k: "?key x = ?key y"
      from x obtain f where f: "f \<in> set gx" "x = ?S f" by auto
      from y obtain g where g: "g \<in> set gx" "y = ?S g" by auto
      obtain s t where s: "stack f = Some s" and t: "stack g = Some t"
        using stack_Some f(1) g(1) assms(3) by metis
      have "stack_label f = stack_label g" using k f g s t by (simp add: stack_label_def)
      then have "stack f = stack g" using tie f(1) g(1) by blast
      then show "x = y" using f g by simp
    qed
    have srt: "sort_key ?key (map ?S gx) = sort_key ?key (map ?S gy)"
      using sort_key_mset_ties [OF ms ties] .
    show ?thesis
      using assms(4) srt
      by (simp add: stacks_def first_hd [OF assms(2)] first_hd [OF gy] sx sy
          stack_each_map [OF assms(3)] stack_each_map [OF ty])
  qed
qed

lemma level_Some: "Trace f \<noteq> [] \<Longrightarrow> \<exists>l. level f (Some c) = Some l"
  by (simp add: level_def sink_hd)

lemma resultMessage_Some:
  assumes "fs \<noteq> []" and "\<forall>f\<in>set fs. Trace f \<noteq> []"
  shows "\<exists>m. resultMessage fs (Some c) = Some m"
proof -
  have "hd fs \<in> set fs" using assms(1) by simp
  then have sx: "sink (hd fs) = Some (hd (Trace (hd fs)))" using assms(2) sink_hd by blast
  show ?thesis
    by (simp add: resultMessage_def first_hd [OF assms(1)] sx sinks_map [OF assms(2)] Let_def)
qed

lemma stacks_Some:
  assumes "fs \<noteq> []" and "\<forall>f\<in>set fs. Trace f \<noteq> []"
  shows "\<exists>s. stacks fs = Some s"
proof -
  have "hd fs \<in> set fs" using assms(1) by simp
  then have sx: "sink (hd fs) = Some (hd (Trace (hd fs)))" using assms(2) sink_hd by blast
  show ?thesis
    by (simp add: stacks_def first_hd [OF assms(1)] sx stack_each_map [OF assms(2)])
qed

lemma result_of_perm:
  assumes "mset gx = mset gy" and "gx \<noteq> []"
    and "\<forall>f\<in>set gx. well_formed f \<and> code_rank f = r \<and> F_OSV f = k"
    and "2 \<le> r \<Longrightarrow>
      \<forall>f\<in>set gx. \<forall>g\<in>set gx. stack_label f = stack_label g \<longrightarrow> stack f = stack g"
  shows "\<exists>res. result_of gx (Some c) = Some res \<and> result_of gy (Some c) = Some res \<and>
           RuleID res = k"
proof -
  have st: "set gx = set gy" using assms(1) by (metis set_mset_mset)
  have gy: "gy \<noteq> []" using assms(1,2) by auto
  have hx: "hd gx \<in> set gx" using assms(2) by simp
  have "hd gy \<in> set gy" using gy by simp
  then have hy: "hd gy \<in> set gx" using st by simp
  have tr: "\<forall>f\<in>set gx. Trace f \<noteq> []" using assms(3) well_formed_flags by blast
  have fx: "Trace (hd gx) \<noteq> []" "Trace (hd gy) \<noteq> []" using tr hx hy by blast+
  have flx: "(Function (hd (Trace (hd gx))) = [] \<longleftrightarrow> r < 2) \<and>
             (Package (hd (Trace (hd gx))) = [] \<longleftrightarrow> r = 0)"
    using well_formed_flags [of "hd gx"] assms(3) hx by auto
  have fly: "(Function (hd (Trace (hd gy))) = [] \<longleftrightarrow> r < 2) \<and>
             (Package (hd (Trace (hd gy))) = [] \<longleftrightarrow> r = 0)"
    using well_formed_flags [of "hd gy"] assms(3) hy by auto
  have fl: "Function (hd (Trace (hd gx))) = [] \<longleftrightarrow> Function (hd (Trace (hd gy))) = []"
    "Package (hd (Trace (hd gx))) = [] \<longleftrightarrow> Package (hd (Trace (hd gy))) = []"
    using flx fly by simp_all
  have lv: "level (hd gx) (Some c) = level (hd gy) (Some c)"
    using level_flags [OF fx fl] .
  obtain l where l: "level (hd gx) (Some c) = Some l"
    using level_Some [OF fx(1)] by blast
  have ms: "resultMessage gx (Some c) = resultMessage gy (Some c)"
    using resultMessage_perm [OF st assms(2) gy tr fl] .
  obtain m where m: "resultMessage gx (Some c) = Some m"
    using resultMessage_Some [OF assms(2) tr] by blast
  have "2 \<le> r" if "Function (hd (Trace (hd gx))) \<noteq> []"
    using that flx by simp
  then have ss: "stacks gx = stacks gy"
    using stacks_perm [OF assms(1,2) tr fl(1)] assms(4) by blast
  obtain s where s: "stacks gx = Some s"
    using stacks_Some [OF assms(2) tr] by blast
  have k: "F_OSV (hd gx) = k" "F_OSV (hd gy) = k" using assms(3) hx hy by auto
  show ?thesis
    using l m s lv ms ss k
    by (simp add: result_of_def first_hd [OF assms(2)] first_hd [OF gy])
qed

lemma rules_each_Some:
  "\<forall>k\<in>set ks. osvs h k \<noteq> None \<Longrightarrow>
   rules_each h ks = Some (map (\<lambda>k. rule_of (the (osvs h k))) ks)"
  by (induction ks) auto

lemma rules_each_None:
  "k \<in> set ks \<Longrightarrow> osvs h k = None \<Longrightarrow> rules_each h ks = None"
  by (induction ks) (auto split: bind_splits)

lemma results_each_Some:
  "\<forall>k\<in>set ks. result_of (group_of h k) (cfg h) = Some (R k) \<Longrightarrow>
   results_each h ks = Some (map R ks)"
  by (induction ks) auto

lemma visit_mset:
  assumes "visit m ks" and "visit m' ks'" and "dom m = dom m'"
  shows "mset ks = mset ks'"
  using assms by (simp add: visit_def set_eq_iff_mset_eq_distinct [symmetric])

lemma sort_key_visit:
  assumes "mset ks = mset ks'" and "\<forall>k\<in>set ks. key (R k) = k"
  shows "sort_key key (map R ks) = sort_key key (map R ks')"
proof (rule sort_key_mset_ties)
  show "mset (map R ks) = mset (map R ks')" using assms(1) by (metis mset_map)
  show "\<forall>x\<in>set (map R ks). \<forall>y\<in>set (map R ks). key x = key y \<longrightarrow> x = y"
    using assms(2) by auto
qed

lemma Rule_ID_rule_of: "Rule_ID (rule_of e) = ID e"
  by (simp add: rule_of_def Let_def)

lemma rules_eq:
  assumes "osvs hx = osvs hy" and "\<forall>k e. osvs hx k = Some e \<longrightarrow> ID e = k"
    and "visit (findings hx) ks" and "visit (findings hy) ks'"
    and "dom (findings hx) = dom (findings hy)"
  shows "rules ks hx = rules ks' hy"
proof -
  have ms: "mset ks = mset ks'" using visit_mset [OF assms(3,4,5)] .
  then have st: "set ks = set ks'" by (metis set_mset_mset)
  show ?thesis
  proof (cases "\<forall>k\<in>set ks. osvs hx k \<noteq> None")
    case True
    then have ty: "\<forall>k\<in>set ks'. osvs hy k \<noteq> None" using st assms(1) by simp
    let ?R = "\<lambda>k. rule_of (the (osvs hx k))"
    have key: "\<forall>k\<in>set ks. Rule_ID (?R k) = k"
      using True assms(2) by (auto simp: Rule_ID_rule_of)
    have "sort_key Rule_ID (map ?R ks) = sort_key Rule_ID (map ?R ks')"
      using sort_key_visit [where key = Rule_ID and R = ?R, OF ms key] .
    then show ?thesis
      by (simp add: rules_def rules_each_Some [OF True] rules_each_Some [OF ty] assms(1))
  next
    case False
    then obtain k where k: "k \<in> set ks" "osvs hx k = None" by blast
    then have k': "k \<in> set ks'" "osvs hy k = None" using st assms(1) by simp_all
    show ?thesis
      by (simp add: rules_def rules_each_None [OF k] rules_each_None [OF k'])
  qed
qed

lemma results_eq:
  assumes "cfg hx = Some c" and "cfg hy = Some c"
    and "visit (findings hx) ks" and "visit (findings hy) ks'"
    and "dom (findings hx) = dom (findings hy)"
    and "\<forall>k\<in>dom (findings hx). \<exists>r. result_of (group_of hx k) (Some c) = Some r \<and>
           result_of (group_of hy k) (Some c) = Some r \<and> RuleID r = k"
  shows "results ks hx = results ks' hy"
proof -
  have ms: "mset ks = mset ks'" using visit_mset [OF assms(3,4,5)] .
  then have st: "set ks = set ks'" by (metis set_mset_mset)
  have d: "set ks = dom (findings hx)" using assms(3) by (simp add: visit_def)
  let ?R = "\<lambda>k. the (result_of (group_of hx k) (Some c))"
  have R: "result_of (group_of hx k) (Some c) = Some (?R k) \<and>
      result_of (group_of hy k) (Some c) = Some (?R k) \<and> RuleID (?R k) = k"
    if "k \<in> dom (findings hx)" for k
  proof -
    from that obtain r where "result_of (group_of hx k) (Some c) = Some r"
      "result_of (group_of hy k) (Some c) = Some r" "RuleID r = k"
      using assms(6) by blast
    then show ?thesis by simp
  qed
  have rx: "\<forall>k\<in>set ks. result_of (group_of hx k) (cfg hx) = Some (?R k)"
    using R d by (simp add: assms(1))
  have ry: "\<forall>k\<in>set ks'. result_of (group_of hy k) (cfg hy) = Some (?R k)"
    using R d st by (simp add: assms(2))
  have key: "\<forall>k\<in>set ks. RuleID (?R k) = k" using R d by simp
  have "sort_key RuleID (map ?R ks) = sort_key RuleID (map ?R ks')"
    using sort_key_visit [where key = RuleID and R = ?R, OF ms key] .
  then show ?thesis
    by (simp add: results_def results_each_Some [OF rx] results_each_Some [OF ry])
qed

lemma toSarif_eq:
  assumes "cfg hx = Some c" and "cfg hy = Some c"
    and "osvs hx = osvs hy" and "\<forall>k e. osvs hx k = Some e \<longrightarrow> ID e = k"
    and "visit (findings hx) ks1" and "visit (findings hx) ks2"
    and "visit (findings hy) ks1'" and "visit (findings hy) ks2'"
    and "dom (findings hx) = dom (findings hy)"
    and "\<forall>k\<in>dom (findings hx). \<exists>r. result_of (group_of hx k) (Some c) = Some r \<and>
           result_of (group_of hy k) (Some c) = Some r \<and> RuleID r = k"
  shows "toSarif ks1 ks2 hx = toSarif ks1' ks2' hy"
  using rules_eq [OF assms(3,4,5,7,9)] results_eq [OF assms(1,2,6,8,9,10)]
  by (simp add: toSarif_def assms(1,2))

lemma observed_eq:
  assumes "toSarif ks1 ks2 hx = toSarif ks1' ks2' hy" and "w hx = w hy"
  shows "observed marshal write ks1 ks2 hx = observed marshal write ks1' ks2' hy"
  using assms
  by (cases "toSarif ks1' ks2' hy") (auto simp: observed_def Flush_def split: sum.splits)

lemma reported_mset:
  "mset (reported xs) =
     (\<Sum>x\<in>#mset xs. case x of SubmitFinding f \<Rightarrow> {#f#} | SubmitOSV e \<Rightarrow> {#})"
  by (induction xs rule: reported.induct) simp_all

lemma defined_mset:
  "mset (defined xs) =
     (\<Sum>x\<in>#mset xs. case x of SubmitOSV e \<Rightarrow> {#e#} | SubmitFinding f \<Rightarrow> {#})"
  by (induction xs rule: defined.induct) simp_all

lemma keyed_members: "f \<in> set (keyed k fs) \<longleftrightarrow> f \<in> set fs \<and> F_OSV f = k"
  by (auto simp: keyed_def)

lemma osvs_agree:
  assumes "mset es = mset es'" and "consistent_definitions es"
  shows "(if defs_for k es = [] then None else Some (last (defs_for k es))) =
         (if defs_for k es' = [] then None else Some (last (defs_for k es')))"
proof -
  have m: "mset (defs_for k es) = mset (defs_for k es')"
    using assms(1) by (simp add: defs_for_def)
  have st: "set es' = set es" using assms(1) by (metis set_mset_mset)
  show ?thesis
  proof (cases "defs_for k es = []")
    case True
    then have "defs_for k es' = []" using m by (metis mset_zero_iff)
    then show ?thesis using True by simp
  next
    case False
    then have F': "defs_for k es' \<noteq> []" using m by (metis mset_zero_iff)
    have a: "last (defs_for k es) \<in> set (defs_for k es)" using False by simp
    have b: "last (defs_for k es') \<in> set (defs_for k es')" using F' by simp
    have "last (defs_for k es) = last (defs_for k es')"
      using a b assms(2) st by (auto simp: defs_for_def consistent_definitions_def)
    then show ?thesis using False F' by simp
  qed
qed

lemma rules_Some:
  "\<forall>k\<in>set ks. osvs h k \<noteq> None \<Longrightarrow> \<exists>rs. rules ks h = Some rs"
  by (simp add: rules_def rules_each_Some)

lemma results_Some:
  assumes "\<forall>k\<in>set ks. \<exists>r. result_of (group_of h k) (cfg h) = Some r"
  shows "\<exists>rs. results ks h = Some rs"
proof -
  have "\<forall>k\<in>set ks. result_of (group_of h k) (cfg h) =
      Some (the (result_of (group_of h k) (cfg h)))"
    using assms by auto
  from results_each_Some [OF this] show ?thesis by (simp add: results_def)
qed

lemma observed_Some:
  assumes "toSarif ks1 ks2 h = Some l"
  shows "\<exists>r. observed marshal write ks1 ks2 h = Some r"
  by (cases "marshal l") (simp_all add: observed_def Flush_def assms)

text \<open>
  C4, as amended. Two runs of the same multiset of definitions and findings from a handler
  with the same configuration, in any two orders, followed by one \<open>Flush\<close> each, return
  the same error and leave the same bytes in the writer, whatever the encoder, the writer
  and the orders in which the maps are visited, provided that: definitions with the same
  identifier are equal; every finding has the shape that the producers build; a
  vulnerability with both a module-level and a package-level finding also has a
  call-level finding; and call-level findings of one vulnerability with the same stack
  label have the same stack. Under these conditions no submission panics, and \<open>Flush\<close>
  does not panic when every finding has a definition of its vulnerability.
\<close>

theorem determinism:
  assumes "mset xs = mset ys"
    and "consistent_definitions (defined xs)"
    and "\<forall>f\<in>set (reported xs). well_formed f"
    and "mix_covered (reported xs)"
    and "stack_ties_agree (reported xs)"
  shows "\<exists>hx hy. run xs (Config c (NewHandler wr)) = Some hx \<and>
           run ys (Config c (NewHandler wr)) = Some hy \<and>
           (\<forall>ks1 ks2 ks1' ks2'.
              visit (findings hx) ks1 \<and> visit (findings hx) ks2 \<and>
              visit (findings hy) ks1' \<and> visit (findings hy) ks2' \<longrightarrow>
              observed marshal write ks1 ks2 hx = observed marshal write ks1' ks2' hy \<and>
              ((\<forall>f\<in>set (reported xs). \<exists>e\<in>set (defined xs). ID e = F_OSV f) \<longrightarrow>
                 (\<exists>r. observed marshal write ks1 ks2 hx = Some r)))"
proof -
  let ?h0 = "Config c (NewHandler wr)"
  have h0: "findings ?h0 = Map.empty" "cfg ?h0 = Some c" "w ?h0 = wr" "osvs ?h0 = Map.empty"
    by (simp_all add: Config_def NewHandler_def)
  have mr: "mset (reported xs) = mset (reported ys)"
    using assms(1) by (simp add: reported_mset)
  have md: "mset (defined xs) = mset (defined ys)"
    using assms(1) by (simp add: defined_mset)
  have sr: "set (reported ys) = set (reported xs)" using mr by (metis set_mset_mset)
  have wy: "\<forall>f\<in>set (reported ys). well_formed f" using assms(3) sr by simp
  have cy: "mix_covered (reported ys)"
    using assms(4) sr by (simp add: mix_covered_def)
  from run_groups [OF assms(3) h0(1)] obtain hx where hx: "run xs ?h0 = Some hx"
    "cfg hx = cfg ?h0" "w hx = w ?h0"
    "\<And>k. tracks (keyed k (reported xs)) (group_of hx k)"
    "\<And>k. findings hx k = None \<longleftrightarrow> keyed k (reported xs) = []"
    "\<And>k. osvs hx k =
        (if defs_for k (defined xs) = [] then osvs ?h0 k
         else Some (last (defs_for k (defined xs))))"
    by blast
  from run_groups [OF wy h0(1)] obtain hy where hy: "run ys ?h0 = Some hy"
    "cfg hy = cfg ?h0" "w hy = w ?h0"
    "\<And>k. tracks (keyed k (reported ys)) (group_of hy k)"
    "\<And>k. findings hy k = None \<longleftrightarrow> keyed k (reported ys) = []"
    "\<And>k. osvs hy k =
        (if defs_for k (defined ys) = [] then osvs ?h0 k
         else Some (last (defs_for k (defined ys))))"
    by blast
  have cx: "cfg hx = Some c" and cy': "cfg hy = Some c" using hx(2) hy(2) h0(2) by simp_all
  have ww: "w hx = w hy" using hx(3) hy(3) by simp
  have mk: "mset (keyed k (reported xs)) = mset (keyed k (reported ys))" for k
    using mr by (simp add: keyed_def)
  have ek: "keyed k (reported xs) = [] \<longleftrightarrow> keyed k (reported ys) = []" for k
    using mk [of k] by (metis mset_zero_iff)
  have oo: "osvs hx = osvs hy"
  proof
    fix k
    show "osvs hx k = osvs hy k"
      unfolding hx(6) hy(6) h0(4) using osvs_agree [OF md assms(2), of k] .
  qed
  have oid: "\<forall>k e. osvs hx k = Some e \<longrightarrow> ID e = k"
  proof (intro allI impI)
    fix k e assume e: "osvs hx k = Some e"
    then have ne: "defs_for k (defined xs) \<noteq> []" and "e = last (defs_for k (defined xs))"
      by (auto simp: hx(6) h0(4) split: if_splits)
    then have "e \<in> set (defs_for k (defined xs))" by simp
    then show "ID e = k" by (simp add: defs_for_def)
  qed
  have dd: "dom (findings hx) = dom (findings hy)"
    using ek hx(5) hy(5) by (auto simp: dom_def)
  have rr: "\<forall>k\<in>dom (findings hx). \<exists>r. result_of (group_of hx k) (Some c) = Some r \<and>
           result_of (group_of hy k) (Some c) = Some r \<and> RuleID r = k"
  proof
    fix k assume "k \<in> dom (findings hx)"
    then have ne: "keyed k (reported xs) \<noteq> []" using hx(5) [of k] by auto
    then have ney: "keyed k (reported ys) \<noteq> []" using ek by simp
    let ?gx = "top_level (keyed k (reported xs))" and ?gy = "top_level (keyed k (reported ys))"
    have gx: "group_of hx k = ?gx"
      using tracks_settled [OF hx(4) mix_covered_settled [OF assms(4)] ne] .
    have gy: "group_of hy k = ?gy"
      using tracks_settled [OF hy(4) mix_covered_settled [OF cy] ney] .
    have m: "mset ?gx = mset ?gy" using top_mset [OF mk] .
    have n: "?gx \<noteq> []" using top_nonempty [OF ne] .
    have mem: "\<forall>f\<in>set ?gx. f \<in> set (reported xs) \<and>
        code_rank f = max_rank (keyed k (reported xs)) \<and> F_OSV f = k"
      using top_rank keyed_members by blast
    have p: "\<forall>f\<in>set ?gx. well_formed f \<and>
        code_rank f = max_rank (keyed k (reported xs)) \<and> F_OSV f = k"
      using mem assms(3) by blast
    have t: "\<forall>f\<in>set ?gx. \<forall>g\<in>set ?gx. stack_label f = stack_label g \<longrightarrow> stack f = stack g"
      if "2 \<le> max_rank (keyed k (reported xs))"
    proof (intro ballI impI)
      fix f g assume f: "f \<in> set ?gx" and g: "g \<in> set ?gx"
        and l: "stack_label f = stack_label g"
      have "f \<in> set (reported xs)" "g \<in> set (reported xs)" "F_OSV f = F_OSV g"
        "2 \<le> code_rank f" "2 \<le> code_rank g"
        using mem f g that by simp_all
      then show "stack f = stack g"
        using assms(5) l unfolding stack_ties_agree_def by blast
    qed
    show "\<exists>r. result_of (group_of hx k) (Some c) = Some r \<and>
           result_of (group_of hy k) (Some c) = Some r \<and> RuleID r = k"
      unfolding gx gy using result_of_perm [OF m n p t] by blast
  qed
  have eq: "observed marshal write ks1 ks2 hx = observed marshal write ks1' ks2' hy"
    if "visit (findings hx) ks1" "visit (findings hx) ks2"
       "visit (findings hy) ks1'" "visit (findings hy) ks2'" for ks1 ks2 ks1' ks2'
    using observed_eq [OF toSarif_eq [OF cx cy' oo oid that dd rr] ww] .
  have tot: "\<exists>r. observed marshal write ks1 ks2 hx = Some r"
    if v: "visit (findings hx) ks1" "visit (findings hx) ks2"
      and df: "\<forall>f\<in>set (reported xs). \<exists>e\<in>set (defined xs). ID e = F_OSV f" for ks1 ks2
  proof -
    have "osvs hx k \<noteq> None" if "k \<in> dom (findings hx)" for k
    proof -
      from that have "keyed k (reported xs) \<noteq> []" using hx(5) [of k] by auto
      then obtain f where "f \<in> set (reported xs)" "F_OSV f = k"
        by (auto simp: keyed_def filter_empty_conv)
      then obtain e where "e \<in> set (defined xs)" "ID e = k" using df by auto
      then have "defs_for k (defined xs) \<noteq> []" by (auto simp: defs_for_def filter_empty_conv)
      then show ?thesis by (simp add: hx(6))
    qed
    then have "\<forall>k\<in>set ks1. osvs hx k \<noteq> None" using v(1) by (simp add: visit_def)
    then obtain rls where rls: "rules ks1 hx = Some rls" using rules_Some by blast
    have "\<forall>k\<in>set ks2. \<exists>r. result_of (group_of hx k) (cfg hx) = Some r"
      using rr v(2) by (auto simp: visit_def cx)
    then obtain res where res: "results ks2 hx = Some res" using results_Some by blast
    have "\<exists>l. toSarif ks1 ks2 hx = Some l" by (simp add: toSarif_def cx rls res)
    then show ?thesis using observed_Some by blast
  qed
  show ?thesis
    by (intro exI [of _ hx] exI [of _ hy] conjI allI impI hx(1) hy(1)) (use eq tot in blast)+
qed

text \<open>
  The last definition of an identifier wins: two definitions of V1 with different
  summaries, submitted in the two orders, give documents whose rule for V1 has different
  short descriptions.
\<close>

theorem determinism_counterexample:
  "mset redefined_first = mset redefined_second \<and>
   (run redefined_first configured \<bind>
      observed descriptions_marshal appending_write [''V1''] [''V1'']) =
     Some (None, ''[V1] second summary'') \<and>
   (run redefined_second configured \<bind>
      observed descriptions_marshal appending_write [''V1''] [''V1'']) =
     Some (None, ''[V1] first summary'')"
proof -
  have a: "run redefined_first configured =
      Some \<lparr>w = [], cfg = Some symbol_config, osvs = [''V1'' \<mapsto> entry_V1_second],
            findings = [''V1'' \<mapsto> [module_finding]]\<rparr>"
    by (simp add: redefined_first_def configured_def Config_def NewHandler_def OSV_def
        Finding_def group_of_def entry_V1_def entry_V1_second_def module_finding_def
        ex_finding_def)
  have b: "run redefined_second configured =
      Some \<lparr>w = [], cfg = Some symbol_config, osvs = [''V1'' \<mapsto> entry_V1],
            findings = [''V1'' \<mapsto> [module_finding]]\<rparr>"
    by (simp add: redefined_second_def configured_def Config_def NewHandler_def OSV_def
        Finding_def group_of_def entry_V1_def entry_V1_second_def module_finding_def
        ex_finding_def)
  have r: "\<exists>r. result_of [module_finding] (Some symbol_config) = Some r"
    by (simp add: result_of_def first_def level_def sink_def resultMessage_def stacks_def
        module_finding_def ex_finding_def ex_frame_def Let_def)
  have m: "mset redefined_first = mset redefined_second"
    by (simp add: redefined_first_def redefined_second_def)
  show ?thesis
    unfolding a b using r m
    by (auto simp: observed_def Flush_def toSarif_def rules_def results_def group_of_def
        rule_of_def Let_def descriptions_marshal_def appending_write_def entry_V1_def
        entry_V1_second_def)
qed

theorem determinism_witness:
  "mset covered_first = mset covered_second \<and>
   map_option (\<lambda>h. group_of h ''V1'') (run covered_first configured) =
     Some [call_finding, call_finding2] \<and>
   map_option (\<lambda>h. group_of h ''V1'') (run covered_second configured) =
     Some [call_finding2, call_finding] \<and>
   (run covered_first configured \<bind>
      observed descriptions_marshal appending_write [''V1''] [''V1'']) =
     Some (None, ''[V1] first summary'') \<and>
   (run covered_second configured \<bind>
      observed descriptions_marshal appending_write [''V1''] [''V1'']) =
     Some (None, ''[V1] first summary'')"
proof -
  have m: "mset covered_first = mset covered_second"
    by (simp add: covered_first_def covered_second_def)
  have d: "defined covered_first = [entry_V1]"
    "reported covered_first = [package_finding, module_finding, call_finding, call_finding2]"
    by (simp_all add: covered_first_def)
  have cd: "consistent_definitions (defined covered_first)"
    by (simp add: d consistent_definitions_def)
  have rk: "code_rank call_finding = 3" "code_rank call_finding2 = 3"
    "code_rank package_finding = 1" "code_rank module_finding = 0"
    by (simp_all add: code_rank_def call_finding_def call_finding2_def package_finding_def
        module_finding_def ex_finding_def ex_frame_def)
  have ids: "F_OSV call_finding = ''V1''" "F_OSV call_finding2 = ''V1''"
    "F_OSV package_finding = ''V1''" "F_OSV module_finding = ''V1''"
    by (simp_all add: call_finding_def call_finding2_def package_finding_def
        module_finding_def ex_finding_def)
  have wf: "\<forall>f\<in>set (reported covered_first). well_formed f"
    by (simp add: d well_formed_def call_finding_def call_finding2_def package_finding_def
        module_finding_def ex_finding_def ex_frame_def)
  have mc: "mix_covered (reported covered_first)"
    by (simp add: d mix_covered_def rk ids)
  have lb: "stack_label call_finding \<noteq> stack_label call_finding2"
    by (simp add: stack_label_def stack_def sink_def call_finding_def call_finding2_def
        ex_finding_def ex_frame_def)
  have ta: "stack_ties_agree (reported covered_first)"
    using lb by (auto simp: d stack_ties_agree_def rk)
  have a: "run covered_first configured =
      Some \<lparr>w = [], cfg = Some symbol_config, osvs = [''V1'' \<mapsto> entry_V1],
            findings = [''V1'' \<mapsto> [call_finding, call_finding2]]\<rparr>"
    by (simp add: covered_first_def configured_def Config_def NewHandler_def OSV_def
        Finding_def group_of_def moreSpecific_def entry_V1_def call_finding_def
        call_finding2_def package_finding_def module_finding_def ex_finding_def ex_frame_def)
  have b: "run covered_second configured =
      Some \<lparr>w = [], cfg = Some symbol_config, osvs = [''V1'' \<mapsto> entry_V1],
            findings = [''V1'' \<mapsto> [call_finding2, call_finding]]\<rparr>"
    by (simp add: covered_second_def configured_def Config_def NewHandler_def OSV_def
        Finding_def group_of_def moreSpecific_def entry_V1_def call_finding_def
        call_finding2_def package_finding_def module_finding_def ex_finding_def ex_frame_def)
  from determinism [OF m cd wf mc ta, of symbol_config "[]" descriptions_marshal appending_write]
  obtain hx hy where h: "run covered_first configured = Some hx"
    "run covered_second configured = Some hy"
    "\<And>ks1 ks2 ks1' ks2'. visit (findings hx) ks1 \<Longrightarrow> visit (findings hx) ks2 \<Longrightarrow>
       visit (findings hy) ks1' \<Longrightarrow> visit (findings hy) ks2' \<Longrightarrow>
       observed descriptions_marshal appending_write ks1 ks2 hx =
       observed descriptions_marshal appending_write ks1' ks2' hy"
    unfolding configured_def by blast
  have "findings hx = [''V1'' \<mapsto> [call_finding, call_finding2]]" using h(1) a by auto
  then have vx: "visit (findings hx) [''V1'']" by (simp add: visit_def)
  have "findings hy = [''V1'' \<mapsto> [call_finding2, call_finding]]" using h(2) b by auto
  then have vy: "visit (findings hy) [''V1'']" by (simp add: visit_def)
  have e: "observed descriptions_marshal appending_write [''V1''] [''V1''] hx =
       observed descriptions_marshal appending_write [''V1''] [''V1''] hy"
    using h(3) [OF vx vx vy vy] .
  have r: "\<exists>r. result_of [call_finding, call_finding2] (Some symbol_config) = Some r"
    by (simp add: result_of_def first_def level_def sink_def resultMessage_def stacks_def
        stack_def call_finding_def call_finding2_def ex_finding_def ex_frame_def Let_def)
  have hxv: "hx = \<lparr>w = [], cfg = Some symbol_config, osvs = [''V1'' \<mapsto> entry_V1],
            findings = [''V1'' \<mapsto> [call_finding, call_finding2]]\<rparr>"
    using h(1) a by simp
  have ox: "observed descriptions_marshal appending_write [''V1''] [''V1''] hx =
      Some (None, ''[V1] first summary'')"
    unfolding hxv using r
    by (auto simp: observed_def Flush_def toSarif_def rules_def results_def group_of_def
        rule_of_def Let_def descriptions_marshal_def appending_write_def entry_V1_def)
  have gx: "map_option (\<lambda>h. group_of h ''V1'') (run covered_first configured) =
     Some [call_finding, call_finding2]"
    unfolding a by (simp add: group_of_def)
  have gy: "map_option (\<lambda>h. group_of h ''V1'') (run covered_second configured) =
     Some [call_finding2, call_finding]"
    unfolding b by (simp add: group_of_def)
  show ?thesis using m gx gy e ox by (simp add: h(1,2))
qed

text \<open>
  The order of submission does show where the conditions fail: for a module-level and a
  package-level finding of a vulnerability without a call-level one, for two call stacks with the same label and
  different frames, and for traces of more than one frame whose sink frames differ in
  what they name.
\<close>

lemma order_matters_module_package:
  "mset [SubmitOSV entry_V1, SubmitFinding module_finding, SubmitFinding package_finding] =
   mset [SubmitOSV entry_V1, SubmitFinding package_finding, SubmitFinding module_finding] \<and>
   map_option (\<lambda>h. group_of h ''V1'')
     (run [SubmitOSV entry_V1, SubmitFinding module_finding, SubmitFinding package_finding]
        configured) = Some [package_finding] \<and>
   map_option (\<lambda>h. group_of h ''V1'')
     (run [SubmitOSV entry_V1, SubmitFinding package_finding, SubmitFinding module_finding]
        configured) = Some [module_finding]"
  by (simp add: configured_def Config_def NewHandler_def OSV_def Finding_def group_of_def
      moreSpecific_def module_finding_def package_finding_def ex_finding_def ex_frame_def)

lemma order_matters_equal_labels:
  "stack_label call_finding = stack_label call_finding_other \<and>
   (run [SubmitOSV entry_V1, SubmitFinding call_finding, SubmitFinding call_finding_other]
      configured \<bind> toSarif [''V1''] [''V1'']) \<noteq>
   (run [SubmitOSV entry_V1, SubmitFinding call_finding_other, SubmitFinding call_finding]
      configured \<bind> toSarif [''V1''] [''V1''])"
  by (simp add: configured_def Config_def NewHandler_def OSV_def Finding_def group_of_def
      moreSpecific_def call_finding_def call_finding_other_def ex_finding_def ex_frame_def
      toSarif_def rules_def results_def result_of_def first_def level_def sink_def
      resultMessage_def stacks_def stack_def stack_label_def Let_def entry_V1_def)

lemma order_matters_unnamed_sink:
  "(run [SubmitOSV entry_V1, SubmitFinding coarse_stack_finding, SubmitFinding call_finding]
      configured \<bind> toSarif [''V1''] [''V1'']) \<noteq>
   (run [SubmitOSV entry_V1, SubmitFinding call_finding, SubmitFinding coarse_stack_finding]
      configured \<bind> toSarif [''V1''] [''V1''])"
  by (simp add: configured_def Config_def NewHandler_def OSV_def Finding_def group_of_def
      moreSpecific_def call_finding_def coarse_stack_finding_def ex_finding_def ex_frame_def
      toSarif_def rules_def results_def result_of_def first_def level_def sink_def
      resultMessage_def stacks_def stack_def Let_def entry_V1_def symbol_config_def
      WantSymbols_def WantPackages_def errorLevel_def warningLevel_def choose_str_def)

end
